theory Spec2Isabelle
  imports
    Main
    "HOL-Library.Multiset"
    "HOL-Library.Char_ord"
    "HOL-Library.List_Lexorder"
begin

section \<open>Strings and bytes\<close>

text \<open>
  A Go string is a sequence of bytes; it is modelled as \<^typ>\<open>string\<close>, a list of
  8-bit characters.  Byte comparison is the unsigned order of \<open>Char_ord\<close>, and the
  comparison \<open>x < y\<close> of two Go strings is the lexicographic order of
  \<open>List_Lexorder\<close>.
\<close>

definition isDigit :: "char \<Rightarrow> bool" where
  "isDigit c = (CHR ''0'' \<le> c \<and> c \<le> CHR ''9'')"

text \<open>
  The index loop \<^verbatim>\<open>for i < len(v) && p(v[i]) { i++ }\<close>, which the semver package
  uses to scan digits and identifiers; the result is the final value of \<open>i\<close>.
\<close>

function scanIdx :: "(char \<Rightarrow> bool) \<Rightarrow> string \<Rightarrow> nat \<Rightarrow> nat" where
  "scanIdx p v i = (if i < length v \<and> p (v ! i) then scanIdx p v (Suc i) else i)"
  by pat_completeness auto
termination
  by (relation "measure (\<lambda>(p, v, i). length v - i)") auto

declare scanIdx.simps [simp del]

section \<open>The semver package (golang.org/x/mod/semver)\<close>

text \<open>
  The program calls \<^verbatim>\<open>semver.IsValid\<close> and \<^verbatim>\<open>semver.Compare\<close>.  The definitions of
  this section follow the functions of the package one by one: \<^verbatim>\<open>parse\<close>,
  \<^verbatim>\<open>parseInt\<close>, \<^verbatim>\<open>parsePrerelease\<close>, \<^verbatim>\<open>parseBuild\<close>, \<^verbatim>\<open>isIdentChar\<close>,
  \<^verbatim>\<open>isBadNum\<close>, \<^verbatim>\<open>isNum\<close>, \<^verbatim>\<open>compareInt\<close>, \<^verbatim>\<open>comparePrerelease\<close> and
  \<^verbatim>\<open>nextIdent\<close>.  A result \<^verbatim>\<open>(..., ok bool)\<close> with \<^verbatim>\<open>ok == false\<close> is \<open>None\<close>.
\<close>

record parsed =
  major :: string
  minor :: string
  patch :: string
  short :: string
  prerelease :: string
  build :: string

definition isIdentChar :: "char \<Rightarrow> bool" where
  "isIdentChar c =
     (CHR ''A'' \<le> c \<and> c \<le> CHR ''Z'' \<or> CHR ''a'' \<le> c \<and> c \<le> CHR ''z'' \<or>
      CHR ''0'' \<le> c \<and> c \<le> CHR ''9'' \<or> c = CHR ''-'')"

definition isBadNum :: "string \<Rightarrow> bool" where
  "isBadNum v = (let i = scanIdx isDigit v 0 in i = length v \<and> i > 1 \<and> v ! 0 = CHR ''0'')"

definition isNum :: "string \<Rightarrow> bool" where
  "isNum v = (let i = scanIdx isDigit v 0 in i = length v)"

definition parseInt :: "string \<Rightarrow> (string \<times> string) option" where
  "parseInt v =
     (if v = [] then None
      else if \<not> isDigit (v ! 0) then None
      else let i = scanIdx isDigit v 1 in
        if v ! 0 = CHR ''0'' \<and> i \<noteq> 1 then None
        else Some (take i v, drop i v))"

text \<open>
  The loop of \<^verbatim>\<open>parsePrerelease\<close>, from the index \<open>i\<close> with the current identifier
  starting at \<open>start\<close>; \<open>v[start:i]\<close> is \<open>take (i - start) (drop start v)\<close>.
\<close>

definition slice :: "string \<Rightarrow> nat \<Rightarrow> nat \<Rightarrow> string" where
  "slice v a b = take (b - a) (drop a v)"

function prereleaseLoop :: "string \<Rightarrow> nat \<Rightarrow> nat \<Rightarrow> (string \<times> string) option" where
  "prereleaseLoop v start i =
     (if i < length v \<and> v ! i \<noteq> CHR ''+'' then
        (if \<not> isIdentChar (v ! i) \<and> v ! i \<noteq> CHR ''.'' then None
         else if v ! i = CHR ''.'' then
           (if start = i \<or> isBadNum (slice v start i) then None
            else prereleaseLoop v (Suc i) (Suc i))
         else prereleaseLoop v start (Suc i))
      else if start = i \<or> isBadNum (slice v start i) then None
      else Some (take i v, drop i v))"
  by pat_completeness auto
termination
  by (relation "measure (\<lambda>(v, start, i). length v - i)") auto

declare prereleaseLoop.simps [simp del]

definition parsePrerelease :: "string \<Rightarrow> (string \<times> string) option" where
  "parsePrerelease v =
     (if v = [] \<or> v ! 0 \<noteq> CHR ''-'' then None else prereleaseLoop v 1 1)"

function buildLoop :: "string \<Rightarrow> nat \<Rightarrow> nat \<Rightarrow> (string \<times> string) option" where
  "buildLoop v start i =
     (if i < length v then
        (if \<not> isIdentChar (v ! i) \<and> v ! i \<noteq> CHR ''.'' then None
         else if v ! i = CHR ''.'' then
           (if start = i then None else buildLoop v (Suc i) (Suc i))
         else buildLoop v start (Suc i))
      else if start = i then None
      else Some (take i v, drop i v))"
  by pat_completeness auto
termination
  by (relation "measure (\<lambda>(v, start, i). length v - i)") auto

declare buildLoop.simps [simp del]

definition parseBuild :: "string \<Rightarrow> (string \<times> string) option" where
  "parseBuild v =
     (if v = [] \<or> v ! 0 \<noteq> CHR ''+'' then None else buildLoop v 1 1)"

definition parse :: "string \<Rightarrow> parsed option" where
  "parse v0 =
     (if v0 = [] \<or> v0 ! 0 \<noteq> CHR ''v'' then None
      else case parseInt (drop 1 v0) of
        None \<Rightarrow> None
      | Some (maj, v1) \<Rightarrow>
          if v1 = [] then
            Some \<lparr>major = maj, minor = ''0'', patch = ''0'', short = ''.0.0'',
                  prerelease = [], build = []\<rparr>
          else if v1 ! 0 \<noteq> CHR ''.'' then None
          else case parseInt (drop 1 v1) of
            None \<Rightarrow> None
          | Some (mi, v2) \<Rightarrow>
              if v2 = [] then
                Some \<lparr>major = maj, minor = mi, patch = ''0'', short = ''.0'',
                      prerelease = [], build = []\<rparr>
              else if v2 ! 0 \<noteq> CHR ''.'' then None
              else case parseInt (drop 1 v2) of
                None \<Rightarrow> None
              | Some (pa, v3) \<Rightarrow>
                  (case (if v3 \<noteq> [] \<and> v3 ! 0 = CHR ''-'' then parsePrerelease v3
                         else Some ([], v3)) of
                     None \<Rightarrow> None
                   | Some (pre, v4) \<Rightarrow>
                       (case (if v4 \<noteq> [] \<and> v4 ! 0 = CHR ''+'' then parseBuild v4
                              else Some ([], v4)) of
                          None \<Rightarrow> None
                        | Some (bld, v5) \<Rightarrow>
                            if v5 \<noteq> [] then None
                            else Some \<lparr>major = maj, minor = mi, patch = pa, short = [],
                                       prerelease = pre, build = bld\<rparr>)))"

definition IsValid :: "string \<Rightarrow> bool" where
  "IsValid v = (parse v \<noteq> None)"

definition compareInt :: "string \<Rightarrow> string \<Rightarrow> int" where
  "compareInt x y =
     (if x = y then 0
      else if length x < length y then - 1
      else if length x > length y then 1
      else if x < y then - 1
      else 1)"

definition nextIdent :: "string \<Rightarrow> string \<times> string" where
  "nextIdent x = (let i = scanIdx (\<lambda>c. c \<noteq> CHR ''.'') x 0 in (take i x, drop i x))"

text \<open>The comparison of two identifiers that differ, inside the loop of
  \<^verbatim>\<open>comparePrerelease\<close>.\<close>

definition compareIdent :: "string \<Rightarrow> string \<Rightarrow> int" where
  "compareIdent dx dy =
     (let ix = isNum dx; iy = isNum dy in
      if ix \<noteq> iy then (if ix then - 1 else 1)
      else if ix \<and> length dx < length dy then - 1
      else if ix \<and> length dx > length dy then 1
      else if dx < dy then - 1
      else 1)"

lemma length_nextIdent_rest: "length (snd (nextIdent x)) \<le> length x"
  by (simp add: nextIdent_def Let_def)

function prereleaseCmpLoop :: "string \<Rightarrow> string \<Rightarrow> int" where
  "prereleaseCmpLoop x y =
     (if x \<noteq> [] \<and> y \<noteq> [] then
        (let (dx, x') = nextIdent (drop 1 x); (dy, y') = nextIdent (drop 1 y) in
         if dx \<noteq> dy then compareIdent dx dy else prereleaseCmpLoop x' y')
      else if x = [] then - 1 else 1)"
  by pat_completeness auto
termination
proof (relation "measure (\<lambda>(x, y). length x)", goal_cases)
  case 1
  show ?case by simp
next
  case (2 x y p dx x' q dy y')
  have "length (snd (nextIdent (drop 1 x))) \<le> length (drop 1 x)"
    by (rule length_nextIdent_rest)
  moreover have "x' = snd (nextIdent (drop 1 x))"
    using 2 by (metis snd_conv)
  moreover have "x \<noteq> []" using 2 by simp
  ultimately show ?case by (cases x) auto
qed

declare prereleaseCmpLoop.simps [simp del]

definition comparePrerelease :: "string \<Rightarrow> string \<Rightarrow> int" where
  "comparePrerelease x y =
     (if x = y then 0
      else if x = [] then 1
      else if y = [] then - 1
      else prereleaseCmpLoop x y)"

definition Compare :: "string \<Rightarrow> string \<Rightarrow> int" where
  "Compare v w =
     (case (parse v, parse w) of
        (None, None) \<Rightarrow> 0
      | (None, Some pw) \<Rightarrow> - 1
      | (Some pv, None) \<Rightarrow> 1
      | (Some pv, Some pw) \<Rightarrow>
          (let c = compareInt (major pv) (major pw) in
           if c \<noteq> 0 then c
           else let c = compareInt (minor pv) (minor pw) in
             if c \<noteq> 0 then c
             else let c = compareInt (patch pv) (patch pw) in
               if c \<noteq> 0 then c
               else comparePrerelease (prerelease pv) (prerelease pw)))"


section \<open>Errors and the file system\<close>

text \<open>
  A Go \<^verbatim>\<open>error\<close> is a value.  \<open>ErrNotExist\<close> is the error for which
  \<^verbatim>\<open>os.IsNotExist\<close> holds; \<open>SysErr n\<close> is any other failure of a system call (with its
  errno); \<open>ErrMsg format args\<close> is \<^verbatim>\<open>fmt.Errorf(format, args...)\<close> and
  \<open>Wrap prefix err\<close> is \<^verbatim>\<open>fmt.Errorf("prefix: %w", err)\<close>.
\<close>

datatype go_error =
    ErrNotExist
  | SysErr nat
  | ErrTooLong
  | LibErr string
  | ErrMsg string "string list"
  | Wrap string go_error

definition IsNotExist :: "go_error \<Rightarrow> bool" where
  "IsNotExist err = (err = ErrNotExist)"

text \<open>
  The state is the directory tree the program writes to: the regular files by path (content
  and permission bits) and the directories.  A call of the operating system may fail for
  reasons outside the program; whether it does is an input of the model, a \<open>fault\<close>
  (\<open>Some errno\<close> makes the call fail).  The \<^verbatim>\<open>umask\<close> is not modelled.
\<close>

record regular_file =
  data :: string
  mode :: nat

record fs =
  files :: "string \<Rightarrow> regular_file option"
  dirs :: "string set"

type_synonym fault = "nat option"

definition dirPerm :: nat where
  "dirPerm = 493"  \<comment> \<open>0o755\<close>

definition filePerm :: nat where
  "filePerm = 420"  \<comment> \<open>0o644\<close>

text \<open>\<^verbatim>\<open>filepath.Join\<close> of two clean, non-empty elements.\<close>

definition filepath_Join :: "string \<Rightarrow> string \<Rightarrow> string" where
  "filepath_Join dir name = dir @ ''/'' @ name"

text \<open>\<^verbatim>\<open>if err != nil { return err }\<close>: a failed step ends the function with the state
  it left; otherwise the function goes on with the step's value.\<close>

fun orReturn :: "(go_error + 'a) \<times> fs \<Rightarrow> ('a \<Rightarrow> fs \<Rightarrow> (go_error + 'b) \<times> fs) \<Rightarrow> (go_error + 'b) \<times> fs" where
  "orReturn (Inl err, s) k = (Inl err, s)"
| "orReturn (Inr a, s) k = k a s"

text \<open>\<^verbatim>\<open>return fmt.Errorf("prefix: %w", err)\<close> for a failed step.\<close>

fun wrapErr :: "string \<Rightarrow> (go_error + 'a) \<times> fs \<Rightarrow> (go_error + 'a) \<times> fs" where
  "wrapErr prefix (Inl err, s) = (Inl (Wrap prefix err), s)"
| "wrapErr prefix (Inr a, s) = (Inr a, s)"

text \<open>\<^verbatim>\<open>defer func() { _ = f() }()\<close>: the deferred call runs when the function returns,
  and its own result is discarded.\<close>

fun deferred :: "(fs \<Rightarrow> (go_error + unit) \<times> fs) \<Rightarrow> (go_error + 'a) \<times> fs \<Rightarrow> (go_error + 'a) \<times> fs" where
  "deferred d (r, s) = (r, snd (d s))"

text \<open>\<^verbatim>\<open>os.Open\<close> followed by reading: the handle stands for the content read through
  it.\<close>

definition os_Open :: "fault \<Rightarrow> string \<Rightarrow> fs \<Rightarrow> go_error + string" where
  "os_Open flt name s =
     (case flt of
        Some e \<Rightarrow> Inl (SysErr e)
      | None \<Rightarrow> (case files s name of None \<Rightarrow> Inl ErrNotExist | Some f \<Rightarrow> Inr (data f)))"

text \<open>\<^verbatim>\<open>os.CreateTemp(dir, pattern)\<close> for a pattern that ends in \<^verbatim>\<open>*\<close>: the new file
  is \<open>dir/prefix<rand>\<close>, empty, with mode 0600.  \<open>rand\<close> is the random string the call
  chose; a name that exists already is a failure (errno 17, \<^verbatim>\<open>EEXIST\<close>).\<close>

definition os_CreateTemp :: "fault \<Rightarrow> string \<Rightarrow> string \<Rightarrow> string \<Rightarrow> fs \<Rightarrow> (go_error + string) \<times> fs" where
  "os_CreateTemp flt rand dir pattern s =
     (let name = filepath_Join dir (butlast pattern @ rand) in
      case flt of
        Some e \<Rightarrow> (Inl (SysErr e), s)
      | None \<Rightarrow>
          if files s name \<noteq> None then (Inl (SysErr 17), s)
          else (Inr name, s\<lparr>files := (files s)(name \<mapsto> \<lparr>data = [], mode = 384\<rparr>)\<rparr>))"

text \<open>\<^verbatim>\<open>f.Write(b)\<close> on the open file \<open>name\<close>: a failure \<open>(errno, n)\<close> has written the
  first \<open>n\<close> bytes only.\<close>

definition appendData :: "string \<Rightarrow> string \<Rightarrow> fs \<Rightarrow> fs" where
  "appendData name b s =
     (case files s name of
        None \<Rightarrow> s
      | Some f \<Rightarrow> s\<lparr>files := (files s)(name \<mapsto> f\<lparr>data := data f @ b\<rparr>)\<rparr>)"

definition file_Write :: "(nat \<times> nat) option \<Rightarrow> string \<Rightarrow> string \<Rightarrow> fs \<Rightarrow> (go_error + unit) \<times> fs" where
  "file_Write flt name b s =
     (case flt of
        Some (e, n) \<Rightarrow> (Inl (SysErr e), appendData name (take n b) s)
      | None \<Rightarrow> (Inr (), appendData name b s))"

definition file_Chmod :: "fault \<Rightarrow> string \<Rightarrow> nat \<Rightarrow> fs \<Rightarrow> (go_error + unit) \<times> fs" where
  "file_Chmod flt name perm s =
     (case flt of
        Some e \<Rightarrow> (Inl (SysErr e), s)
      | None \<Rightarrow>
          (case files s name of
             None \<Rightarrow> (Inr (), s)
           | Some f \<Rightarrow> (Inr (), s\<lparr>files := (files s)(name \<mapsto> f\<lparr>mode := perm\<rparr>)\<rparr>)))"

definition file_Close :: "fault \<Rightarrow> fs \<Rightarrow> (go_error + unit) \<times> fs" where
  "file_Close flt s = (case flt of Some e \<Rightarrow> (Inl (SysErr e), s) | None \<Rightarrow> (Inr (), s))"

definition os_Rename :: "fault \<Rightarrow> string \<Rightarrow> string \<Rightarrow> fs \<Rightarrow> (go_error + unit) \<times> fs" where
  "os_Rename flt oldpath newpath s =
     (case flt of
        Some e \<Rightarrow> (Inl (SysErr e), s)
      | None \<Rightarrow>
          (case files s oldpath of
             None \<Rightarrow> (Inl ErrNotExist, s)
           | Some f \<Rightarrow> (Inr (), s\<lparr>files := ((files s)(oldpath := None))(newpath \<mapsto> f)\<rparr>)))"

definition os_Remove :: "fault \<Rightarrow> string \<Rightarrow> fs \<Rightarrow> (go_error + unit) \<times> fs" where
  "os_Remove flt name s =
     (case flt of
        Some e \<Rightarrow> (Inl (SysErr e), s)
      | None \<Rightarrow>
          (case files s name of
             None \<Rightarrow> (Inl ErrNotExist, s)
           | Some f \<Rightarrow> (Inr (), s\<lparr>files := (files s)(name := None)\<rparr>)))"

text \<open>\<^verbatim>\<open>os.WriteFile(name, data, perm)\<close> opens with \<^verbatim>\<open>O_WRONLY|O_CREATE|O_TRUNC\<close>, writes
  and closes.  It can fail at the open (nothing changes), in the write (the file holds the
  first \<open>n\<close> bytes) or at the close (the file holds all of them).  \<open>perm\<close> is the mode of a
  file the call creates; an existing file keeps its mode.\<close>

datatype write_fault = OpenFails nat | WriteFails nat nat | CloseFails nat

definition truncWrite :: "string \<Rightarrow> string \<Rightarrow> nat \<Rightarrow> fs \<Rightarrow> fs" where
  "truncWrite name b perm s =
     s\<lparr>files := (files s)(name \<mapsto>
        \<lparr>data = b, mode = (case files s name of None \<Rightarrow> perm | Some f \<Rightarrow> mode f)\<rparr>)\<rparr>"

definition os_WriteFile :: "write_fault option \<Rightarrow> string \<Rightarrow> string \<Rightarrow> nat \<Rightarrow> fs \<Rightarrow> (go_error + unit) \<times> fs" where
  "os_WriteFile flt name b perm s =
     (case flt of
        Some (OpenFails e) \<Rightarrow> (Inl (SysErr e), s)
      | Some (WriteFails e n) \<Rightarrow> (Inl (SysErr e), truncWrite name (take n b) perm s)
      | Some (CloseFails e) \<Rightarrow> (Inl (SysErr e), truncWrite name b perm s)
      | None \<Rightarrow> (Inr (), truncWrite name b perm s))"

text \<open>\<^verbatim>\<open>os.MkdirAll(path, perm)\<close> creates the directory and the parents it needs.\<close>

fun parents :: "string \<Rightarrow> string \<Rightarrow> string list" where
  "parents pre [] = []"
| "parents pre (c # cs) =
     (if c = CHR ''/'' \<and> pre \<noteq> [] then pre # parents (pre @ [c]) cs else parents (pre @ [c]) cs)"

definition os_MkdirAll :: "fault \<Rightarrow> string \<Rightarrow> nat \<Rightarrow> fs \<Rightarrow> (go_error + unit) \<times> fs" where
  "os_MkdirAll flt path perm s =
     (case flt of
        Some e \<Rightarrow> (Inl (SysErr e), s)
      | None \<Rightarrow> (Inr (), s\<lparr>dirs := dirs s \<union> set (parents [] path) \<union> {path}\<rparr>))"

section \<open>Reading the list: bufio.Scanner with ScanLines\<close>

definition dropCR :: "string \<Rightarrow> string" where
  "dropCR d = (if d \<noteq> [] \<and> last d = CHR 0x0D then butlast d else d)"

definition newline :: char where
  "newline = CHR 0x0A"

text \<open>The tokens \<^verbatim>\<open>bufio.ScanLines\<close> cuts out of the whole input, before \<^verbatim>\<open>dropCR\<close>: each
  line up to its newline, and the last line if it is not empty.\<close>

function rawLines :: "string \<Rightarrow> string list" where
  "rawLines d =
     (if d = [] then []
      else if newline \<in> set d then
        takeWhile (\<lambda>c. c \<noteq> newline) d # rawLines (drop 1 (dropWhile (\<lambda>c. c \<noteq> newline) d))
      else [d])"
  by pat_completeness auto
termination
proof (relation "measure length", goal_cases)
  case 1
  show ?case by simp
next
  case (2 d)
  have "length (dropWhile (\<lambda>c. c \<noteq> newline) d) \<le> length d"
    by (rule length_dropWhile_le)
  moreover have "dropWhile (\<lambda>c. c \<noteq> newline) d \<noteq> []"
    using 2 by (simp add: dropWhile_eq_Nil_conv)
  ultimately show ?case by (cases "dropWhile (\<lambda>c. c \<noteq> newline) d") auto
qed

declare rawLines.simps [simp del]

definition MaxScanTokenSize :: nat where
  "MaxScanTokenSize = 65536"

text \<open>The lines a \<^verbatim>\<open>bufio.Scanner\<close> delivers until \<^verbatim>\<open>Scan\<close> returns false, or the error
  \<^verbatim>\<open>sc.Err()\<close> reports: a failed read, or a line that does not fit the buffer.\<close>

definition scanAll :: "fault \<Rightarrow> string \<Rightarrow> go_error + string list" where
  "scanAll flt content =
     (case flt of
        Some e \<Rightarrow> Inl (SysErr e)
      | None \<Rightarrow>
          if list_ex (\<lambda>l. MaxScanTokenSize \<le> length l) (rawLines content) then Inl ErrTooLong
          else Inr (map dropCR (rawLines content)))"

section \<open>sort.Slice\<close>

text \<open>
  \<^verbatim>\<open>sort.Slice\<close> belongs to the Go library and its algorithm is not fixed: it sorts by
  the given \<^verbatim>\<open>less\<close>, and "the sort is not guaranteed to be stable".  The program takes
  it as a parameter \<open>srt\<close>, of which only this contract is used: the result is a
  rearrangement of the input, and it is in ascending order whenever \<^verbatim>\<open>less\<close> is a
  strict weak ordering of the elements.
\<close>

definition strict_weak_on :: "'a set \<Rightarrow> ('a \<Rightarrow> 'a \<Rightarrow> bool) \<Rightarrow> bool" where
  "strict_weak_on A lessf =
     ((\<forall>a\<in>A. \<forall>b\<in>A. lessf a b \<longrightarrow> \<not> lessf b a) \<and>
      (\<forall>a\<in>A. \<forall>b\<in>A. \<forall>c\<in>A. \<not> lessf a b \<and> \<not> lessf b c \<longrightarrow> \<not> lessf a c))"

definition ascending :: "('a \<Rightarrow> 'a \<Rightarrow> bool) \<Rightarrow> 'a list \<Rightarrow> bool" where
  "ascending lessf xs = sorted_wrt (\<lambda>a b. \<not> lessf b a) xs"

definition sort_contract :: "(('a \<Rightarrow> 'a \<Rightarrow> bool) \<Rightarrow> 'a list \<Rightarrow> 'a list) \<Rightarrow> bool" where
  "sort_contract srt =
     (\<forall>lessf xs. mset (srt lessf xs) = mset xs \<and>
        (strict_weak_on (set xs) lessf \<longrightarrow> ascending lessf (srt lessf xs)))"

text \<open>
  Two sorts that meet the contract.  \<open>insertionSort\<close> is the insertion sort of the Go
  library (\<^verbatim>\<open>insertionSortLessFunc\<close>: each element moves left while it is less than its
  left neighbour), which \<^verbatim>\<open>sort.Slice\<close> runs on a slice of at most 12 elements; the sorted
  prefix is kept in reverse.  \<open>insertionSortRev\<close> is the same sort run on the reversed
  slice.
\<close>

fun insertLeft :: "('a \<Rightarrow> 'a \<Rightarrow> bool) \<Rightarrow> 'a \<Rightarrow> 'a list \<Rightarrow> 'a list" where
  "insertLeft lessf x [] = [x]"
| "insertLeft lessf x (y # ys) = (if lessf x y then y # insertLeft lessf x ys else x # y # ys)"

definition insertionSort :: "('a \<Rightarrow> 'a \<Rightarrow> bool) \<Rightarrow> 'a list \<Rightarrow> 'a list" where
  "insertionSort lessf xs = rev (foldl (\<lambda>acc x. insertLeft lessf x acc) [] xs)"

definition insertionSortRev :: "('a \<Rightarrow> 'a \<Rightarrow> bool) \<Rightarrow> 'a list \<Rightarrow> 'a list" where
  "insertionSortRev lessf xs = insertionSort lessf (rev xs)"

section \<open>The list file: updateListFile and writeFileAtomic\<close>

text \<open>What the environment answers during one call of \<^verbatim>\<open>writeFileAtomic\<close>.\<close>

record wfa_env =
  tmp_rand :: string
  createTemp_fault :: fault
  write_fault :: "(nat \<times> nat) option"
  chmod_fault :: fault
  close_fault :: fault
  rename_fault :: fault
  remove_fault :: fault

definition writeFileAtomic :: "wfa_env \<Rightarrow> string \<Rightarrow> string \<Rightarrow> string \<Rightarrow> nat \<Rightarrow> fs \<Rightarrow> (go_error + unit) \<times> fs" where
  "writeFileAtomic env dir baseName b perm s =
     orReturn (os_CreateTemp (createTemp_fault env) (tmp_rand env) dir (baseName @ ''.tmp-*'') s)
       (\<lambda>tmpName s.
          deferred (os_Remove (remove_fault env) tmpName)
            (orReturn (file_Write (write_fault env) tmpName b s) (\<lambda>_ s.
             orReturn (file_Chmod (chmod_fault env) tmpName perm s) (\<lambda>_ s.
             orReturn (file_Close (close_fault env) s) (\<lambda>_ s.
             os_Rename (rename_fault env) tmpName (filepath_Join dir baseName) s)))))"

text \<open>What the environment answers during one call of \<^verbatim>\<open>updateListFile\<close>.\<close>

record list_env =
  open_fault :: fault
  read_fault :: fault
  wfa :: wfa_env

text \<open>The loop over the scanned lines: blank lines are skipped, valid versions are
  appended to \<open>existing\<close>.\<close>

fun scanLoop :: "string list \<Rightarrow> string list \<Rightarrow> string list" where
  "scanLoop existing [] = existing"
| "scanLoop existing (line # rest) =
     (if line = [] then scanLoop existing rest
      else if IsValid line then scanLoop (existing @ [line]) rest
      else scanLoop existing rest)"

text \<open>The loop that composes the content: every version followed by a newline.\<close>

fun compose :: "string \<Rightarrow> string list \<Rightarrow> string" where
  "compose out [] = out"
| "compose out (v # rest) = compose (out @ v @ [newline]) rest"

text \<open>The function after the list has been read.  \<open>seen\<close> is the key set of the Go map;
  \<^verbatim>\<open>less\<close> compares the elements at two indices, that is, two elements.\<close>

definition insertSortWrite :: "((string \<Rightarrow> string \<Rightarrow> bool) \<Rightarrow> string list \<Rightarrow> string list) \<Rightarrow> list_env \<Rightarrow> string \<Rightarrow> string \<Rightarrow> string list \<Rightarrow> fs \<Rightarrow> (go_error + unit) \<times> fs" where
  "insertSortWrite srt env atVDir newVer existing s =
     (let seen = set existing;
          existing = (if newVer \<notin> seen then existing @ [newVer] else existing);
          existing = srt (\<lambda>a b. Compare a b < 0) existing;
          out = compose [] existing
      in writeFileAtomic (wfa env) atVDir ''list'' out filePerm s)"

definition updateListFile :: "((string \<Rightarrow> string \<Rightarrow> bool) \<Rightarrow> string list \<Rightarrow> string list) \<Rightarrow> list_env \<Rightarrow> string \<Rightarrow> string \<Rightarrow> fs \<Rightarrow> (go_error + unit) \<times> fs" where
  "updateListFile srt env atVDir newVer s =
     (let listPath = filepath_Join atVDir ''list'' in
      case os_Open (open_fault env) listPath s of
        Inr f \<Rightarrow>
          (case scanAll (read_fault env) f of
             Inl err \<Rightarrow> (Inl (Wrap ''scan list'' err), s)
           | Inr lines \<Rightarrow> insertSortWrite srt env atVDir newVer (scanLoop [] lines) s)
      | Inl err \<Rightarrow>
          if \<not> IsNotExist err then (Inl err, s)
          else insertSortWrite srt env atVDir newVer [] s)"

section \<open>Escaping module paths and versions (golang.org/x/mod/module)\<close>

text \<open>
  \<^verbatim>\<open>module.EscapePath\<close> and \<^verbatim>\<open>module.EscapeVersion\<close> check their argument
  (\<^verbatim>\<open>CheckPath\<close>, \<^verbatim>\<open>checkElem\<close>: collaborators, see below) and then call
  \<^verbatim>\<open>escapeString\<close>, which is modelled here.  Its first loop refuses \<^verbatim>\<open>!\<close> and every
  rune from \<^verbatim>\<open>utf8.RuneSelf\<close> on, that is, every byte from 128 on; its second loop
  replaces an upper-case letter by \<^verbatim>\<open>!\<close> and the lower-case letter
  (\<^verbatim>\<open>byte(r + 'a' - 'A')\<close>).
\<close>

definition isUpper :: "char \<Rightarrow> bool" where
  "isUpper r = (CHR ''A'' \<le> r \<and> r \<le> CHR ''Z'')"

definition lowerByte :: "char \<Rightarrow> char" where
  "lowerByte r = char_of (of_char r + (32 :: nat))"

fun escapeLoop :: "string \<Rightarrow> string \<Rightarrow> string" where
  "escapeLoop buf [] = buf"
| "escapeLoop buf (r # rs) =
     (if isUpper r then escapeLoop (buf @ [CHR ''!'', lowerByte r]) rs
      else escapeLoop (buf @ [r]) rs)"

definition escapeString :: "string \<Rightarrow> go_error + string" where
  "escapeString s =
     (if list_ex (\<lambda>r. r = CHR ''!'' \<or> (128 :: nat) \<le> of_char r) s then
        Inl (ErrMsg ''internal error: inconsistency in EscapePath'' [])
      else if \<not> list_ex isUpper s then Inr s
      else Inr (escapeLoop [] s))"

text \<open>\<^verbatim>\<open>strings.ToLower\<close> on a string of ASCII bytes.\<close>

definition ToLower :: "string \<Rightarrow> string" where
  "ToLower s = map (\<lambda>r. if isUpper r then lowerByte r else r) s"

section \<open>The collaborators and the environment of a run\<close>

text \<open>
  The library functions the program calls without this repository defining them are
  parameters of the model, as is the source tree, which the program only reads:
  \<^item> \<open>filepath_Abs\<close>: \<^verbatim>\<open>filepath.Abs\<close>;
  \<^item> \<open>os_ReadFile\<close>: \<^verbatim>\<open>os.ReadFile\<close> on a file of the source tree;
  \<^item> \<open>modfile_Parse\<close>: \<^verbatim>\<open>modfile.Parse("go.mod", data, nil)\<close>, with the result
    \<^verbatim>\<open>modf.Module.Mod.Path\<close>, or \<open>None\<close> when \<^verbatim>\<open>modf.Module\<close> is nil;
  \<^item> \<open>module_CheckPath\<close>, \<open>module_checkElem\<close>: the checks of \<^verbatim>\<open>EscapePath\<close> and
    \<^verbatim>\<open>EscapeVersion\<close>, \<open>Some err\<close> for a refusal;
  \<^item> \<open>json_Marshal\<close>: \<^verbatim>\<open>json.Marshal(info{Version: v, Time: t})\<close>;
  \<^item> \<open>zip_CreateFromDir\<close>: \<^verbatim>\<open>zip.CreateFromDir(w, module.Version{Path, Version}, dir)\<close>,
    with the bytes it wrote to \<open>w\<close> and the error it returned, if any.
  The state \<^typ>\<open>fs\<close> is the tree under \<^verbatim>\<open>-out\<close>; the source tree is taken to lie outside
  it.  The writes of \<^verbatim>\<open>flag.Usage\<close> and \<^verbatim>\<open>log.Fatal\<close> to the terminal are not part of the
  state; the text \<^verbatim>\<open>fmt.Printf\<close> prints on success is the result of \<open>run\<close>.
\<close>

record collab =
  filepath_Abs :: "string \<Rightarrow> go_error + string"
  os_ReadFile :: "string \<Rightarrow> go_error + string"
  modfile_Parse :: "string \<Rightarrow> go_error + string option"
  module_CheckPath :: "string \<Rightarrow> go_error option"
  module_checkElem :: "string \<Rightarrow> go_error option"
  json_Marshal :: "string \<Rightarrow> nat \<Rightarrow> go_error + string"
  zip_CreateFromDir :: "string \<Rightarrow> string \<Rightarrow> string \<Rightarrow> string \<times> go_error option"

definition EscapePath :: "collab \<Rightarrow> string \<Rightarrow> go_error + string" where
  "EscapePath c path =
     (case module_CheckPath c path of Some err \<Rightarrow> Inl err | None \<Rightarrow> escapeString path)"

definition EscapeVersion :: "collab \<Rightarrow> string \<Rightarrow> go_error + string" where
  "EscapeVersion c v =
     (if module_checkElem c v \<noteq> None \<or> CHR ''!'' \<in> set v then
        Inl (ErrMsg ''disallowed version string'' [v])
      else escapeString v)"

text \<open>What the environment answers during one run: the time, the random part of the
  name of the temporary archive, and the failures of system calls.\<close>

record run_env =
  now :: nat
  mkdirAll_fault :: fault
  writeMod_fault :: "write_fault option"
  writeInfo_fault :: "write_fault option"
  zipTemp_rand :: string
  zipTemp_fault :: fault
  zipClose_fault :: fault
  zipRename_fault :: fault
  zipRemove_fault :: fault
  list_answers :: list_env

section \<open>run, first variant (with the list file)\<close>

text \<open>
  \<open>publish\<close> is the part of \<^verbatim>\<open>run\<close> from the computation of \<^verbatim>\<open>modDir\<close> on, where the
  program starts to write.  The two \<^verbatim>\<open>defer\<close> statements run when \<^verbatim>\<open>run\<close> returns:
  \<^verbatim>\<open>tmp.Close()\<close> first, which changes nothing in the tree, then
  \<^verbatim>\<open>os.Remove(tmpZip)\<close>.
\<close>

definition wrote4 :: "string \<Rightarrow> string \<Rightarrow> string \<Rightarrow> string \<Rightarrow> string" where
  "wrote4 a b c d =
     ''Wrote:'' @ [newline] @ ''  '' @ a @ [newline] @ ''  '' @ b @ [newline] @
     ''  '' @ c @ [newline] @ ''  '' @ d @ [newline]"

definition publish :: "((string \<Rightarrow> string \<Rightarrow> bool) \<Rightarrow> string list \<Rightarrow> string list) \<Rightarrow> collab \<Rightarrow> run_env \<Rightarrow> string \<Rightarrow> string \<Rightarrow> string \<Rightarrow> string \<Rightarrow> string \<Rightarrow> string \<Rightarrow> string \<Rightarrow> fs \<Rightarrow> (go_error + string) \<times> fs" where
  "publish srt c env absSrc goModBytes modPath version outRoot escPath escVer s =
     (let modDir = filepath_Join outRoot escPath;
          atV = filepath_Join modDir ''@v''
      in
      orReturn (os_MkdirAll (mkdirAll_fault env) atV dirPerm s) (\<lambda>_ s.
      orReturn (os_WriteFile (writeMod_fault env) (filepath_Join atV (escVer @ ''.mod''))
                  goModBytes filePerm s) (\<lambda>_ s.
      case json_Marshal c version (now env) of
        Inl err \<Rightarrow> (Inl err, s)
      | Inr ib \<Rightarrow>
      (let ib = ib @ [newline] in
      orReturn (os_WriteFile (writeInfo_fault env) (filepath_Join atV (escVer @ ''.info''))
                  ib filePerm s) (\<lambda>_ s.
      orReturn (os_CreateTemp (zipTemp_fault env) (zipTemp_rand env) atV ''zip-*'' s)
        (\<lambda>tmpZip s.
      deferred (os_Remove (zipRemove_fault env) tmpZip)
       (case zip_CreateFromDir c modPath version absSrc of
          (written, zerr) \<Rightarrow>
          (let s = appendData tmpZip written s in
           case zerr of
             Some err \<Rightarrow> (Inl err, s)
           | None \<Rightarrow>
           orReturn (file_Close (zipClose_fault env) s) (\<lambda>_ s.
           (let zipFile = filepath_Join atV (escVer @ ''.zip'') in
           orReturn (os_Rename (zipRename_fault env) tmpZip zipFile s) (\<lambda>_ s.
           orReturn (wrapErr ''update list''
                       (updateListFile srt (list_answers env) atV version s)) (\<lambda>_ s.
           (Inr (wrote4 (filepath_Join atV (escVer @ ''.mod''))
                        (filepath_Join atV (escVer @ ''.info''))
                        zipFile
                        (filepath_Join atV ''list'')), s)))))))))))))"

definition run :: "((string \<Rightarrow> string \<Rightarrow> bool) \<Rightarrow> string list \<Rightarrow> string list) \<Rightarrow> collab \<Rightarrow> run_env \<Rightarrow> string \<Rightarrow> string \<Rightarrow> string \<Rightarrow> fs \<Rightarrow> (go_error + string) \<times> fs" where
  "run srt c env srcDir version outRoot s =
     (if srcDir = [] \<or> version = [] \<or> outRoot = [] then
        (Inl (ErrMsg ''required flags: -src, -version, -out'' []), s)
      else if \<not> IsValid version then
        (Inl (ErrMsg ''invalid version %q (want semver like v1.2.3)'' [version]), s)
      else case filepath_Abs c srcDir of
        Inl err \<Rightarrow> (Inl err, s)
      | Inr absSrc \<Rightarrow>
      (let goModPath = filepath_Join absSrc ''go.mod'' in
       case os_ReadFile c goModPath of
         Inl err \<Rightarrow> (Inl (Wrap ''read go.mod'' err), s)
       | Inr goModBytes \<Rightarrow>
       (case modfile_Parse c goModBytes of
          Inl err \<Rightarrow> (Inl (Wrap ''parse go.mod'' err), s)
        | Inr modf \<Rightarrow>
          if modf = None \<or> the modf = [] then
            (Inl (ErrMsg ''cannot determine module path from go.mod'' []), s)
          else
          (let modPath = the modf in
           case EscapePath c modPath of
             Inl err \<Rightarrow> (Inl (Wrap ''escape module path'' err), s)
           | Inr escPath \<Rightarrow>
           (case EscapeVersion c version of
              Inl err \<Rightarrow> (Inl (Wrap ''escape version'' err), s)
            | Inr escVer \<Rightarrow>
                publish srt c env absSrc goModBytes modPath version outRoot escPath escVer s)))))"

section \<open>run, second variant (without the list file)\<close>

definition wrote3 :: "string \<Rightarrow> string \<Rightarrow> string \<Rightarrow> string" where
  "wrote3 a b c =
     ''Wrote:'' @ [newline] @ ''  '' @ a @ [newline] @ ''  '' @ b @ [newline] @
     ''  '' @ c @ [newline]"

definition publish2 :: "collab \<Rightarrow> run_env \<Rightarrow> string \<Rightarrow> string \<Rightarrow> string \<Rightarrow> string \<Rightarrow> string \<Rightarrow> string \<Rightarrow> string \<Rightarrow> fs \<Rightarrow> (go_error + string) \<times> fs" where
  "publish2 c env absSrc goModBytes modPath version outRoot escPath escVer s =
     (let modDir = filepath_Join outRoot escPath;
          atV = filepath_Join modDir ''@v''
      in
      orReturn (os_MkdirAll (mkdirAll_fault env) atV dirPerm s) (\<lambda>_ s.
      orReturn (os_WriteFile (writeMod_fault env) (filepath_Join atV (escVer @ ''.mod''))
                  goModBytes filePerm s) (\<lambda>_ s.
      case json_Marshal c version (now env) of
        Inl err \<Rightarrow> (Inl err, s)
      | Inr ib \<Rightarrow>
      (let ib = ib @ [newline] in
      orReturn (os_WriteFile (writeInfo_fault env) (filepath_Join atV (escVer @ ''.info''))
                  ib filePerm s) (\<lambda>_ s.
      orReturn (os_CreateTemp (zipTemp_fault env) (zipTemp_rand env) atV ''zip-*'' s)
        (\<lambda>tmpZip s.
      deferred (os_Remove (zipRemove_fault env) tmpZip)
       (case zip_CreateFromDir c modPath version absSrc of
          (written, zerr) \<Rightarrow>
          (let s = appendData tmpZip written s in
           case zerr of
             Some err \<Rightarrow> (Inl err, s)
           | None \<Rightarrow>
           orReturn (file_Close (zipClose_fault env) s) (\<lambda>_ s.
           (let zipFile = filepath_Join atV (escVer @ ''.zip'') in
           orReturn (os_Rename (zipRename_fault env) tmpZip zipFile s) (\<lambda>_ s.
           (Inr (wrote3 (filepath_Join atV (escVer @ ''.mod''))
                        (filepath_Join atV (escVer @ ''.info''))
                        zipFile), s))))))))))))"

definition run2 :: "collab \<Rightarrow> run_env \<Rightarrow> string \<Rightarrow> string \<Rightarrow> string \<Rightarrow> fs \<Rightarrow> (go_error + string) \<times> fs" where
  "run2 c env srcDir version outRoot s =
     (if srcDir = [] \<or> version = [] \<or> outRoot = [] then
        (Inl (ErrMsg ''required flags: -src, -version, -out'' []), s)
      else if \<not> IsValid version then
        (Inl (ErrMsg ''invalid version %q (want semver like v1.2.3)'' [version]), s)
      else case filepath_Abs c srcDir of
        Inl err \<Rightarrow> (Inl err, s)
      | Inr absSrc \<Rightarrow>
      (let goModPath = filepath_Join absSrc ''go.mod'' in
       case os_ReadFile c goModPath of
         Inl err \<Rightarrow> (Inl (Wrap ''read go.mod'' err), s)
       | Inr goModBytes \<Rightarrow>
       (case modfile_Parse c goModBytes of
          Inl err \<Rightarrow> (Inl (Wrap ''parse go.mod'' err), s)
        | Inr modf \<Rightarrow>
          if modf = None \<or> the modf = [] then
            (Inl (ErrMsg ''cannot determine module path from go.mod'' []), s)
          else
          (let modPath = the modf in
           case EscapePath c modPath of
             Inl err \<Rightarrow> (Inl (Wrap ''escape module path'' err), s)
           | Inr escPath \<Rightarrow>
           (case EscapeVersion c version of
              Inl err \<Rightarrow> (Inl (Wrap ''escape version'' err), s)
            | Inr escVer \<Rightarrow>
                publish2 c env absSrc goModBytes modPath version outRoot escPath escVer s)))))"

section \<open>semver.Compare is a total preorder; valid versions are made of version characters\<close>

lemma scanIdx_takeWhile:
  "i \<le> length v \<Longrightarrow> scanIdx p v i = i + length (takeWhile p (drop i v))"
proof (induction p v i rule: scanIdx.induct)
  case (1 p v i)
  show ?case
  proof (cases "i < length v \<and> p (v ! i)")
    case True
    then have d: "drop i v = v ! i # drop (Suc i) v"
      by (simp add: Cons_nth_drop_Suc)
    from True 1 have "scanIdx p v (Suc i) = Suc i + length (takeWhile p (drop (Suc i) v))"
      by simp
    with True d show ?thesis
      by (subst scanIdx.simps) simp
  next
    case False
    show ?thesis
    proof (cases "i < length v")
      case True
      with False have "\<not> p (v ! i)" by simp
      moreover from True have "drop i v = v ! i # drop (Suc i) v"
        by (simp add: Cons_nth_drop_Suc)
      ultimately show ?thesis using False by (subst scanIdx.simps) simp
    next
      case False
      then show ?thesis using 1 by (subst scanIdx.simps) simp
    qed
  qed
qed

lemma scanIdx_0: "scanIdx p v 0 = length (takeWhile p v)"
  using scanIdx_takeWhile [of 0 v p] by simp

lemma nextIdent_eq:
  "nextIdent x = (takeWhile (\<lambda>c. c \<noteq> CHR ''.'') x, dropWhile (\<lambda>c. c \<noteq> CHR ''.'') x)"
  unfolding nextIdent_def scanIdx_0 Let_def
  by (metis takeWhile_eq_take dropWhile_eq_drop)

lemma isNum_eq: "isNum v = (\<forall>c\<in>set v. isDigit c)"
  unfolding isNum_def Let_def scanIdx_0
  by (metis takeWhile_eq_all_conv takeWhile_eq_take length_take min.absorb2 length_takeWhile_le take_all)

lemma compareInt_0: "compareInt x y = 0 \<longleftrightarrow> x = y"
  by (simp add: compareInt_def)

lemma compareInt_sym: "compareInt y x = - compareInt x y"
  by (auto simp: compareInt_def)

lemma compareInt_trans:
  "compareInt x y < 0 \<Longrightarrow> compareInt y z < 0 \<Longrightarrow> compareInt x z < 0"
  by (auto simp: compareInt_def split: if_splits)

lemma compareIdent_range: "compareIdent a b = - 1 \<or> compareIdent a b = 1"
  by (simp add: compareIdent_def Let_def)

lemma compareIdent_sym: "a \<noteq> b \<Longrightarrow> compareIdent b a = - compareIdent a b"
  by (auto simp: compareIdent_def Let_def)

lemma compareIdent_trans:
  "compareIdent a b < 0 \<Longrightarrow> compareIdent b c < 0 \<Longrightarrow> compareIdent a c < 0"
  by (auto simp: compareIdent_def Let_def split: if_splits)


text \<open>
  The identifiers of a pre-release string (\<open>-a.b.c\<close> has \<open>a\<close>, \<open>b\<close>, \<open>c\<close>), and the
  comparison of two lists of identifiers that the loop of \<^verbatim>\<open>comparePrerelease\<close> computes.
\<close>

fun splitDots :: "string \<Rightarrow> string list" where
  "splitDots [] = [[]]"
| "splitDots (c # cs) =
     (if c = CHR ''.'' then [] # splitDots cs
      else (c # hd (splitDots cs)) # tl (splitDots cs))"

definition idents :: "string \<Rightarrow> string list" where
  "idents x = (if x = [] then [] else splitDots (drop 1 x))"

fun cmpIdents :: "string list \<Rightarrow> string list \<Rightarrow> int" where
  "cmpIdents [] bs = - 1"
| "cmpIdents (a # as) [] = 1"
| "cmpIdents (a # as) (b # bs) = (if a \<noteq> b then compareIdent a b else cmpIdents as bs)"

lemma splitDots_ne: "splitDots s \<noteq> []"
  by (cases s) auto

lemma hd_splitDots: "hd (splitDots s) = takeWhile (\<lambda>c. c \<noteq> CHR ''.'') s"
  by (induction s) auto

lemma tl_splitDots: "tl (splitDots s) = idents (dropWhile (\<lambda>c. c \<noteq> CHR ''.'') s)"
  by (induction s) (auto simp: idents_def)

lemma idents_step:
  "x \<noteq> [] \<Longrightarrow> idents x = fst (nextIdent (drop 1 x)) # idents (snd (nextIdent (drop 1 x)))"
  using splitDots_ne [of "drop 1 x"]
  by (simp add: idents_def [of x] nextIdent_eq hd_splitDots [symmetric] tl_splitDots [symmetric])

lemma idents_Nil: "idents x = [] \<longleftrightarrow> x = []"
  by (simp add: idents_def splitDots_ne)

lemma prereleaseCmpLoop_idents: "prereleaseCmpLoop x y = cmpIdents (idents x) (idents y)"
proof (induction x y rule: prereleaseCmpLoop.induct)
  case (1 x y)
  show ?case
  proof (cases "x \<noteq> [] \<and> y \<noteq> []")
    case True
    obtain dx x' where nx: "nextIdent (drop 1 x) = (dx, x')" by (cases "nextIdent (drop 1 x)")
    obtain dy y' where ny: "nextIdent (drop 1 y) = (dy, y')" by (cases "nextIdent (drop 1 y)")
    have ix: "idents x = dx # idents x'" using True idents_step [of x] nx by simp
    have iy: "idents y = dy # idents y'" using True idents_step [of y] ny by simp
    show ?thesis
    proof (cases "dx = dy")
      case False
      then show ?thesis using True nx ny ix iy
        by (subst prereleaseCmpLoop.simps) simp
    next
      case eq: True
      have "prereleaseCmpLoop x' y' = cmpIdents (idents x') (idents y')"
        using 1 [OF True refl nx [symmetric] refl ny [symmetric]] eq by simp
      then show ?thesis using True nx ny ix iy eq
        by (subst prereleaseCmpLoop.simps) simp
    qed
  next
    case False
    show ?thesis
    proof (cases "x = []")
      case True
      then show ?thesis by (subst prereleaseCmpLoop.simps) (simp add: idents_def)
    next
      case xne: False
      with False have y: "y = []" by simp
      from xne obtain a as where "idents x = a # as"
        by (cases "idents x") (auto simp: idents_Nil)
      with xne y show ?thesis by (subst prereleaseCmpLoop.simps) (simp add: idents_def)
    qed
  qed
qed

lemma cmpIdents_range: "cmpIdents as bs = - 1 \<or> cmpIdents as bs = 1"
proof (induction as bs rule: cmpIdents.induct)
  case (3 a as b bs)
  then show ?case using compareIdent_range [of a b] by (cases "a = b") simp_all
qed simp_all

lemma cmpIdents_sym: "as \<noteq> bs \<Longrightarrow> cmpIdents bs as = - cmpIdents as bs"
proof (induction as bs rule: cmpIdents.induct)
  case (1 bs)
  then show ?case by (cases bs) auto
next
  case (2 a as)
  then show ?case by simp
next
  case (3 a as b bs)
  then show ?case using compareIdent_sym [of a b] by (cases "a = b") auto
qed

lemma cmpIdents_trans:
  "cmpIdents as bs < 0 \<Longrightarrow> cmpIdents bs cs < 0 \<Longrightarrow> cmpIdents as cs < 0"
proof (induction as arbitrary: bs cs)
  case Nil
  then show ?case by simp
next
  case (Cons a as)
  from Cons.prems(1) obtain b bs' where bs: "bs = b # bs'" by (cases bs) auto
  from Cons.prems(2) bs obtain c cs' where cs: "cs = c # cs'" by (cases cs) auto
  have p1: "cmpIdents (a # as) (b # bs') < 0" using Cons.prems(1) bs by simp
  have p2: "cmpIdents (b # bs') (c # cs') < 0" using Cons.prems(2) bs cs by simp
  have "cmpIdents (a # as) (c # cs') < 0"
  proof (cases "a = b")
    case ab: True
    show ?thesis
    proof (cases "b = c")
      case True
      from p1 ab have "cmpIdents as bs' < 0" by simp
      moreover from p2 True have "cmpIdents bs' cs' < 0" by simp
      ultimately have "cmpIdents as cs' < 0" by (rule Cons.IH)
      with ab True show ?thesis by simp
    next
      case False
      with p2 have "compareIdent b c < 0" by simp
      with ab False show ?thesis by simp
    qed
  next
    case ab: False
    with p1 have 1: "compareIdent a b < 0" by simp
    show ?thesis
    proof (cases "b = c")
      case True
      with ab 1 show ?thesis by simp
    next
      case False
      with p2 have "compareIdent b c < 0" by simp
      with 1 have ac: "compareIdent a c < 0" by (rule compareIdent_trans)
      have "a \<noteq> c"
      proof
        assume "a = c"
        with ac show False by (simp add: compareIdent_def Let_def)
      qed
      with ac show ?thesis by simp
    qed
  qed
  with cs show ?case by simp
qed

fun joinDots :: "string list \<Rightarrow> string" where
  "joinDots [] = []"
| "joinDots [d] = d"
| "joinDots (d # e # ds) = d @ CHR ''.'' # joinDots (e # ds)"

lemma joinDots_splitDots: "joinDots (splitDots s) = s"
proof (induction s)
  case Nil
  show ?case by simp
next
  case (Cons c s)
  obtain d ds where sp: "splitDots s = d # ds"
    using splitDots_ne [of s] by (cases "splitDots s") auto
  with Cons show ?case by (cases ds) auto
qed

lemma idents_inj:
  assumes "idents x = idents y" and "x \<noteq> []" and "y \<noteq> []" and "hd x = hd y"
  shows "x = y"
proof -
  from assms have "splitDots (drop 1 x) = splitDots (drop 1 y)" by (simp add: idents_def)
  then have "joinDots (splitDots (drop 1 x)) = joinDots (splitDots (drop 1 y))" by simp
  then have "drop 1 x = drop 1 y" by (simp only: joinDots_splitDots)
  with assms show ?thesis by (cases x; cases y) auto
qed

definition prereleaseOK :: "string \<Rightarrow> bool" where
  "prereleaseOK x = (x = [] \<or> hd x = CHR ''-'')"

lemma comparePrerelease_0: "comparePrerelease x y = 0 \<longleftrightarrow> x = y"
  using cmpIdents_range [of "idents x" "idents y"]
  by (auto simp: comparePrerelease_def prereleaseCmpLoop_idents)

lemma comparePrerelease_sym:
  assumes "prereleaseOK x" and "prereleaseOK y"
  shows "comparePrerelease y x = - comparePrerelease x y"
proof (cases "x = y \<or> x = [] \<or> y = []")
  case True
  then show ?thesis by (auto simp: comparePrerelease_def)
next
  case False
  with assms have "idents x \<noteq> idents y"
    using idents_inj [of x y] by (auto simp: prereleaseOK_def)
  then have "cmpIdents (idents y) (idents x) = - cmpIdents (idents x) (idents y)"
    by (rule cmpIdents_sym)
  then show ?thesis using False
    by (auto simp: comparePrerelease_def prereleaseCmpLoop_idents)
qed

lemma comparePrerelease_trans:
  assumes "comparePrerelease x y < 0" and "comparePrerelease y z < 0"
    and "prereleaseOK x" and "prereleaseOK y" and "prereleaseOK z"
  shows "comparePrerelease x z < 0"
proof -
  from assms(1) have xy: "x \<noteq> y" "x \<noteq> []"
    by (auto simp: comparePrerelease_def split: if_splits)
  from assms(2) have yz: "y \<noteq> z" "y \<noteq> []"
    by (auto simp: comparePrerelease_def split: if_splits)
  show ?thesis
  proof (cases "z = []")
    case True
    with xy show ?thesis by (simp add: comparePrerelease_def)
  next
    case False
    from assms(1) xy yz have 1: "cmpIdents (idents x) (idents y) < 0"
      by (simp add: comparePrerelease_def prereleaseCmpLoop_idents)
    from assms(2) yz False have 2: "cmpIdents (idents y) (idents z) < 0"
      by (simp add: comparePrerelease_def prereleaseCmpLoop_idents)
    from 1 2 have 3: "cmpIdents (idents x) (idents z) < 0" by (rule cmpIdents_trans)
    have "x \<noteq> z"
    proof
      assume "x = z"
      with 2 have "cmpIdents (idents y) (idents x) < 0" by simp
      moreover have "idents x \<noteq> idents y"
        using idents_inj [of x y] xy yz assms(3,4) by (auto simp: prereleaseOK_def)
      ultimately show False using 1 cmpIdents_sym [of "idents x" "idents y"] by simp
    qed
    with 3 xy False show ?thesis
      by (simp add: comparePrerelease_def prereleaseCmpLoop_idents)
  qed
qed

definition verChar :: "char \<Rightarrow> bool" where
  "verChar c = (isIdentChar c \<or> c = CHR ''.'' \<or> c = CHR ''+'')"

lemma isDigit_verChar: "isDigit c \<Longrightarrow> verChar c"
  by (simp add: isDigit_def verChar_def isIdentChar_def)

lemma parseInt_Some:
  assumes "parseInt v = Some (t, r)"
  shows "v = t @ r \<and> (\<forall>c\<in>set t. verChar c)"
proof -
  from assms have ne: "v \<noteq> []" and d0: "isDigit (v ! 0)"
    and t: "t = take (scanIdx isDigit v 1) v" and r: "r = drop (scanIdx isDigit v 1) v"
    by (auto simp: parseInt_def Let_def split: if_splits)
  from ne have "1 \<le> length v" by (cases v) auto
  then have i: "scanIdx isDigit v 1 = 1 + length (takeWhile isDigit (drop 1 v))"
    by (rule scanIdx_takeWhile)
  from ne obtain c cs where v: "v = c # cs" by (cases v) auto
  have "take (length (takeWhile isDigit cs)) cs = takeWhile isDigit cs"
    by (metis takeWhile_eq_take)
  with t i v have "t = c # takeWhile isDigit cs" by simp
  moreover have "\<forall>x\<in>set (takeWhile isDigit cs). isDigit x"
    by (auto dest: set_takeWhileD)
  ultimately have "\<forall>x\<in>set t. verChar x" using d0 v by (auto intro: isDigit_verChar)
  with t r show ?thesis by simp
qed

lemma prereleaseLoop_Some:
  "prereleaseLoop v s i = Some (t, r) \<Longrightarrow> i \<le> length v \<Longrightarrow> (\<forall>k<i. verChar (v ! k)) \<Longrightarrow>
   \<exists>j. i \<le> j \<and> j \<le> length v \<and> t = take j v \<and> r = drop j v \<and> (\<forall>k<j. verChar (v ! k))"
proof (induction v s i rule: prereleaseLoop.induct)
  case (1 v start i)
  show ?case
  proof (cases "i < length v \<and> v ! i \<noteq> CHR ''+''")
    case True
    from "1.prems"(1) True have ok: "isIdentChar (v ! i) \<or> v ! i = CHR ''.''"
      by (subst (asm) prereleaseLoop.simps) (auto split: if_splits)
    then have vi: "verChar (v ! i)" by (auto simp: verChar_def)
    have ext: "\<forall>k<Suc i. verChar (v ! k)"
      using "1.prems"(3) vi by (auto simp: less_Suc_eq)
    show ?thesis
    proof (cases "v ! i = CHR ''.''")
      case dot: True
      from "1.prems"(1) True dot have c: "\<not> (start = i \<or> isBadNum (slice v start i))"
        and rec: "prereleaseLoop v (Suc i) (Suc i) = Some (t, r)"
        by (subst (asm) prereleaseLoop.simps; auto split: if_splits)+
      have "\<exists>j. Suc i \<le> j \<and> j \<le> length v \<and> t = take j v \<and> r = drop j v \<and> (\<forall>k<j. verChar (v ! k))"
        using "1.IH"(1) [OF True _ dot c rec] ok True ext by auto
      then obtain j where "Suc i \<le> j" "j \<le> length v" "t = take j v" "r = drop j v"
        "\<forall>k<j. verChar (v ! k)" by blast
      then show ?thesis by (intro exI [of _ j]) simp
    next
      case nodot: False
      from "1.prems"(1) True nodot have rec: "prereleaseLoop v start (Suc i) = Some (t, r)"
        by (subst (asm) prereleaseLoop.simps) (auto split: if_splits)
      have "\<exists>j. Suc i \<le> j \<and> j \<le> length v \<and> t = take j v \<and> r = drop j v \<and> (\<forall>k<j. verChar (v ! k))"
        using "1.IH"(2) [OF True _ nodot rec] ok True ext by auto
      then obtain j where "Suc i \<le> j" "j \<le> length v" "t = take j v" "r = drop j v"
        "\<forall>k<j. verChar (v ! k)" by blast
      then show ?thesis by (intro exI [of _ j]) simp
    qed
  next
    case False
    from "1.prems"(1) False have "t = take i v" "r = drop i v"
      by (subst (asm) prereleaseLoop.simps; auto split: if_splits)+
    with "1.prems" show ?thesis by auto
  qed
qed

lemma buildLoop_Some:
  "buildLoop v s i = Some (t, r) \<Longrightarrow> i \<le> length v \<Longrightarrow> (\<forall>k<i. verChar (v ! k)) \<Longrightarrow>
   \<exists>j. i \<le> j \<and> j \<le> length v \<and> t = take j v \<and> r = drop j v \<and> (\<forall>k<j. verChar (v ! k))"
proof (induction v s i rule: buildLoop.induct)
  case (1 v start i)
  show ?case
  proof (cases "i < length v")
    case True
    from "1.prems"(1) True have ok: "isIdentChar (v ! i) \<or> v ! i = CHR ''.''"
      by (subst (asm) buildLoop.simps) (auto split: if_splits)
    then have vi: "verChar (v ! i)" by (auto simp: verChar_def)
    have ext: "\<forall>k<Suc i. verChar (v ! k)"
      using "1.prems"(3) vi by (auto simp: less_Suc_eq)
    show ?thesis
    proof (cases "v ! i = CHR ''.''")
      case dot: True
      from "1.prems"(1) True dot have c: "start \<noteq> i"
        and rec: "buildLoop v (Suc i) (Suc i) = Some (t, r)"
        by (subst (asm) buildLoop.simps; auto split: if_splits)+
      have "\<exists>j. Suc i \<le> j \<and> j \<le> length v \<and> t = take j v \<and> r = drop j v \<and> (\<forall>k<j. verChar (v ! k))"
        using "1.IH"(1) [OF True _ dot c rec] ok True ext by auto
      then obtain j where "Suc i \<le> j" "j \<le> length v" "t = take j v" "r = drop j v"
        "\<forall>k<j. verChar (v ! k)" by blast
      then show ?thesis by (intro exI [of _ j]) simp
    next
      case nodot: False
      from "1.prems"(1) True nodot have rec: "buildLoop v start (Suc i) = Some (t, r)"
        by (subst (asm) buildLoop.simps) (auto split: if_splits)
      have "\<exists>j. Suc i \<le> j \<and> j \<le> length v \<and> t = take j v \<and> r = drop j v \<and> (\<forall>k<j. verChar (v ! k))"
        using "1.IH"(2) [OF True _ nodot rec] ok True ext by auto
      then obtain j where "Suc i \<le> j" "j \<le> length v" "t = take j v" "r = drop j v"
        "\<forall>k<j. verChar (v ! k)" by blast
      then show ?thesis by (intro exI [of _ j]) simp
    qed
  next
    case False
    from "1.prems"(1) False have "t = take i v" "r = drop i v"
      by (subst (asm) buildLoop.simps; auto split: if_splits)+
    with "1.prems" show ?thesis by auto
  qed
qed

lemma take_all_verChar: "j \<le> length v \<Longrightarrow> \<forall>k<j. verChar (v ! k) \<Longrightarrow> \<forall>c\<in>set (take j v). verChar c"
  by (auto simp: in_set_conv_nth)

lemma parsePrerelease_Some:
  assumes "parsePrerelease v = Some (t, r)"
  shows "v = t @ r \<and> (\<forall>c\<in>set t. verChar c) \<and> t \<noteq> [] \<and> hd t = CHR ''-''"
proof -
  from assms have ne: "v \<noteq> []" and v0: "v ! 0 = CHR ''-''" and l: "prereleaseLoop v 1 1 = Some (t, r)"
    by (auto simp: parsePrerelease_def split: if_splits)
  from ne have len: "1 \<le> length v" by (cases v) auto
  have "\<forall>k<1. verChar (v ! k)" using v0 by (simp add: verChar_def isIdentChar_def)
  from prereleaseLoop_Some [OF l len this] obtain j where
    j: "1 \<le> j" "j \<le> length v" "t = take j v" "r = drop j v" "\<forall>k<j. verChar (v ! k)" by blast
  from j ne v0 have "t \<noteq> []" "hd t = CHR ''-''" by (cases v; cases j; auto)+
  with j take_all_verChar [of j v] show ?thesis by simp
qed

lemma parseBuild_Some:
  assumes "parseBuild v = Some (t, r)"
  shows "v = t @ r \<and> (\<forall>c\<in>set t. verChar c)"
proof -
  from assms have ne: "v \<noteq> []" and v0: "v ! 0 = CHR ''+''" and l: "buildLoop v 1 1 = Some (t, r)"
    by (auto simp: parseBuild_def split: if_splits)
  from ne have len: "1 \<le> length v" by (cases v) auto
  have "\<forall>k<1. verChar (v ! k)" using v0 by (simp add: verChar_def)
  from buildLoop_Some [OF l len this] obtain j where
    j: "1 \<le> j" "j \<le> length v" "t = take j v" "r = drop j v" "\<forall>k<j. verChar (v ! k)" by blast
  with take_all_verChar [of j v] show ?thesis by simp
qed

lemma cons_drop1: "v \<noteq> [] \<Longrightarrow> v = v ! 0 # drop 1 v"
  by (cases v) auto

lemma parse_Some:
  assumes "parse v = Some p"
  shows "(\<forall>c\<in>set v. verChar c) \<and> prereleaseOK (prerelease p)"
proof -
  have vv: "verChar (CHR ''v'')" "verChar (CHR ''.'')"
    by (simp_all add: verChar_def isIdentChar_def)
  from assms have ne: "v \<noteq> []" and v0: "v ! 0 = CHR ''v''"
    by (auto simp: parse_def split: if_splits)
  from assms ne v0 obtain maj v1 where p1: "parseInt (drop 1 v) = Some (maj, v1)"
    by (auto simp: parse_def split: option.splits)
  from parseInt_Some [OF p1] have s1: "drop 1 v = maj @ v1" "\<forall>c\<in>set maj. verChar c" by auto
  have v: "v = CHR ''v'' # maj @ v1" using cons_drop1 [OF ne] v0 s1 by simp
  show ?thesis
  proof (cases "v1 = []")
    case True
    with assms ne v0 p1 have "prerelease p = []" by (auto simp: parse_def)
    with v True s1 vv show ?thesis by (auto simp: prereleaseOK_def)
  next
    case n1: False
    from assms ne v0 p1 n1 have d1: "v1 ! 0 = CHR ''.''"
      by (auto simp: parse_def split: if_splits)
    from assms ne v0 p1 n1 d1 obtain mi v2 where p2: "parseInt (drop 1 v1) = Some (mi, v2)"
      by (auto simp: parse_def split: option.splits)
    from parseInt_Some [OF p2] have s2: "drop 1 v1 = mi @ v2" "\<forall>c\<in>set mi. verChar c" by auto
    have v1: "v1 = CHR ''.'' # mi @ v2" using cons_drop1 [OF n1] d1 s2 by simp
    show ?thesis
    proof (cases "v2 = []")
      case True
      with assms ne v0 p1 n1 d1 p2 have "prerelease p = []" by (auto simp: parse_def)
      with v v1 True s1 s2 vv show ?thesis by (auto simp: prereleaseOK_def)
    next
      case n2: False
      from assms ne v0 p1 n1 d1 p2 n2 have d2: "v2 ! 0 = CHR ''.''"
        by (auto simp: parse_def split: if_splits)
      from assms ne v0 p1 n1 d1 p2 n2 d2 obtain pa v3 where p3: "parseInt (drop 1 v2) = Some (pa, v3)"
        by (auto simp: parse_def split: option.splits)
      from parseInt_Some [OF p3] have s3: "drop 1 v2 = pa @ v3" "\<forall>c\<in>set pa. verChar c" by auto
      have v2: "v2 = CHR ''.'' # pa @ v3" using cons_drop1 [OF n2] d2 s3 by simp
      define e1 where "e1 = (if v3 \<noteq> [] \<and> v3 ! 0 = CHR ''-'' then parsePrerelease v3 else Some ([], v3))"
      from assms ne v0 p1 n1 d1 p2 n2 d2 p3 obtain pre v4 where p4: "e1 = Some (pre, v4)"
        unfolding e1_def by (auto simp: parse_def split: option.splits)
      define e2 where "e2 = (if v4 \<noteq> [] \<and> v4 ! 0 = CHR ''+'' then parseBuild v4 else Some ([], v4))"
      from assms ne v0 p1 n1 d1 p2 n2 d2 p3 p4 obtain bld v5 where p5: "e2 = Some (bld, v5)"
        unfolding e1_def e2_def by (auto simp: parse_def split: option.splits)
      from assms ne v0 p1 n1 d1 p2 n2 d2 p3 p4 p5 have fin: "v5 = []" "prerelease p = pre"
        unfolding e1_def e2_def by (auto simp: parse_def split: if_splits)
      have s4: "v3 = pre @ v4 \<and> (\<forall>c\<in>set pre. verChar c) \<and> prereleaseOK pre"
        using p4 parsePrerelease_Some [of v3 pre v4] unfolding e1_def
        by (auto simp: prereleaseOK_def split: if_splits)
      have s5: "v4 = bld @ v5 \<and> (\<forall>c\<in>set bld. verChar c)"
        using p5 parseBuild_Some [of v4 bld v5] unfolding e2_def
        by (auto split: if_splits)
      have "v = CHR ''v'' # maj @ CHR ''.'' # mi @ CHR ''.'' # pa @ pre @ bld"
        using v v1 v2 s4 s5 fin by simp
      then have "\<forall>c\<in>set v. verChar c"
        using s1 s2 s3 s4 s5 vv by auto
      with s4 fin show ?thesis by simp
    qed
  qed
qed

lemma IsValid_verChar: "IsValid v \<Longrightarrow> c \<in> set v \<Longrightarrow> verChar c"
  using parse_Some [of v] by (auto simp: IsValid_def)

text \<open>The comparison of two parsed versions, as \<^verbatim>\<open>Compare\<close> does it.\<close>

definition cmpParsed :: "parsed \<Rightarrow> parsed \<Rightarrow> int" where
  "cmpParsed pv pw =
     (let c = compareInt (major pv) (major pw) in
           if c \<noteq> 0 then c
           else let c = compareInt (minor pv) (minor pw) in
             if c \<noteq> 0 then c
             else let c = compareInt (patch pv) (patch pw) in
               if c \<noteq> 0 then c
               else comparePrerelease (prerelease pv) (prerelease pw))"

lemma Compare_cmpParsed:
  "Compare v w = (case (parse v, parse w) of
        (None, None) \<Rightarrow> 0
      | (None, Some pw) \<Rightarrow> - 1
      | (Some pv, None) \<Rightarrow> 1
      | (Some pv, Some pw) \<Rightarrow> cmpParsed pv pw)"
  by (simp add: Compare_def cmpParsed_def split: option.splits)

lemma cmpParsed_sym:
  assumes "prereleaseOK (prerelease p)" and "prereleaseOK (prerelease q)"
  shows "cmpParsed q p = - cmpParsed p q"
  using compareInt_sym [of "major q" "major p"] compareInt_sym [of "minor q" "minor p"]
    compareInt_sym [of "patch q" "patch p"] comparePrerelease_sym [OF assms]
  by (simp add: cmpParsed_def Let_def)

lemma cmpParsed_less_iff:
  "cmpParsed p q < 0 \<longleftrightarrow>
     (compareInt (major p) (major q) < 0 \<or> major p = major q \<and>
       (compareInt (minor p) (minor q) < 0 \<or> minor p = minor q \<and>
         (compareInt (patch p) (patch q) < 0 \<or> patch p = patch q \<and>
            comparePrerelease (prerelease p) (prerelease q) < 0)))"
  using compareInt_0 [of "major p" "major q"] compareInt_0 [of "minor p" "minor q"]
    compareInt_0 [of "patch p" "patch q"]
  by (auto simp: cmpParsed_def Let_def)

lemma cmpParsed_trans:
  assumes "cmpParsed p q < 0" and "cmpParsed q r < 0"
    and "prereleaseOK (prerelease p)" and "prereleaseOK (prerelease q)" and "prereleaseOK (prerelease r)"
  shows "cmpParsed p r < 0"
  using assms(1,2) compareInt_trans [of "major p" "major q" "major r"]
    compareInt_trans [of "minor p" "minor q" "minor r"]
    compareInt_trans [of "patch p" "patch q" "patch r"]
    comparePrerelease_trans [OF _ _ assms(3,4,5)]
  unfolding cmpParsed_less_iff by metis

lemma cmpParsed_0_trans:
  assumes "cmpParsed p q = 0" 
  shows "cmpParsed p r = cmpParsed q r"
proof -
  from assms have "major p = major q \<and> minor p = minor q \<and> patch p = patch q \<and> prerelease p = prerelease q"
    using compareInt_0 comparePrerelease_0
    by (auto simp: cmpParsed_def Let_def split: if_splits)
  then show ?thesis by (simp add: cmpParsed_def Let_def)
qed

lemma Compare_sym: "Compare w v = - Compare v w"
proof (cases "parse v"; cases "parse w")
  fix p q assume "parse v = Some p" "parse w = Some q"
  then show ?thesis using cmpParsed_sym [of p q] parse_Some [of v p] parse_Some [of w q]
    by (simp add: Compare_cmpParsed)
qed (simp_all add: Compare_cmpParsed)

lemma Compare_le_trans:
  assumes "Compare a b \<le> 0" and "Compare b c \<le> 0"
  shows "Compare a c \<le> 0"
proof (cases "parse a")
  case None
  then show ?thesis by (cases "parse c") (simp_all add: Compare_cmpParsed)
next
  case a: (Some p)
  with assms(1) obtain q where b: "parse b = Some q"
    by (cases "parse b") (auto simp: Compare_cmpParsed)
  with assms(2) obtain r where c: "parse c = Some r"
    by (cases "parse c") (auto simp: Compare_cmpParsed)
  note ok = parse_Some [OF a] parse_Some [OF b] parse_Some [OF c]
  from assms a b c have pq: "cmpParsed p q \<le> 0" and qr: "cmpParsed q r \<le> 0"
    by (simp_all add: Compare_cmpParsed)
  have "cmpParsed p r \<le> 0"
  proof (cases "cmpParsed p q = 0")
    case True
    then show ?thesis using cmpParsed_0_trans [of p q r] qr by simp
  next
    case False
    with pq have 1: "cmpParsed p q < 0" by simp
    show ?thesis
    proof (cases "cmpParsed q r = 0")
      case True
      have "cmpParsed r q = 0" using cmpParsed_sym [of q r] ok True by simp
      then have "cmpParsed r p = cmpParsed q p" using cmpParsed_0_trans [of r q p] by simp
      then show ?thesis using cmpParsed_sym [of p r] cmpParsed_sym [of p q] ok 1 by simp
    next
      case False
      with qr have "cmpParsed q r < 0" by simp
      with 1 have "cmpParsed p r < 0" using ok by (intro cmpParsed_trans [of p q r]) simp_all
      then show ?thesis by simp
    qed
  qed
  with a c show ?thesis by (simp add: Compare_cmpParsed)
qed

section \<open>The comparison of updateListFile is a strict weak ordering; two sorts meet the contract\<close>

lemma Compare_less_strict_weak: "strict_weak_on A (\<lambda>a b. Compare a b < 0)"
  unfolding strict_weak_on_def
proof (intro conjI ballI impI)
  fix a b assume "Compare a b < 0"
  then show "\<not> Compare b a < 0" using Compare_sym [of a b] by simp
next
  fix a b c assume h: "\<not> Compare a b < 0 \<and> \<not> Compare b c < 0"
  then have "Compare b a \<le> 0" "Compare c b \<le> 0"
    using Compare_sym [of a b] Compare_sym [of b c] by simp_all
  then have "Compare c a \<le> 0" using Compare_le_trans [of c b a] by simp
  then show "\<not> Compare a c < 0" using Compare_sym [of a c] by simp
qed

lemma ascending_Compare:
  "ascending (\<lambda>a b. Compare a b < 0) xs = sorted_wrt (\<lambda>a b. Compare a b \<le> 0) xs"
proof -
  have "(\<lambda>a b. \<not> Compare b a < 0) = (\<lambda>a b. Compare a b \<le> 0)"
  proof (intro ext)
    fix a b show "(\<not> Compare b a < 0) = (Compare a b \<le> 0)"
      using Compare_sym [of a b] by auto
  qed
  then show ?thesis by (simp add: ascending_def)
qed

lemma mset_insertLeft: "mset (insertLeft lessf x ys) = add_mset x (mset ys)"
  by (induction ys) auto

lemma mset_foldl_insertLeft:
  "mset (foldl (\<lambda>acc x. insertLeft lessf x acc) acc xs) = mset acc + mset xs"
  by (induction xs arbitrary: acc) (auto simp: mset_insertLeft)

lemma mset_insertionSort: "mset (insertionSort lessf xs) = mset xs"
  by (simp add: insertionSort_def mset_foldl_insertLeft)

text \<open>The sorted prefix in reverse: every element is not less than the ones after it.\<close>

definition descending :: "('a \<Rightarrow> 'a \<Rightarrow> bool) \<Rightarrow> 'a list \<Rightarrow> bool" where
  "descending lessf xs = sorted_wrt (\<lambda>a b. \<not> lessf a b) xs"

lemma set_insertLeft: "set (insertLeft lessf x ys) = insert x (set ys)"
  by (induction ys) auto

lemma strict_weak_onD1:
  "strict_weak_on A lessf \<Longrightarrow> a \<in> A \<Longrightarrow> b \<in> A \<Longrightarrow> lessf a b \<Longrightarrow> \<not> lessf b a"
  unfolding strict_weak_on_def by blast

lemma strict_weak_onD2:
  "strict_weak_on A lessf \<Longrightarrow> a \<in> A \<Longrightarrow> b \<in> A \<Longrightarrow> c \<in> A \<Longrightarrow>
   \<not> lessf a b \<Longrightarrow> \<not> lessf b c \<Longrightarrow> \<not> lessf a c"
  unfolding strict_weak_on_def by blast

lemma descending_Cons:
  "descending lessf (y # ys) = ((\<forall>z\<in>set ys. \<not> lessf y z) \<and> descending lessf ys)"
  by (simp add: descending_def)

lemma descending_insertLeft:
  assumes "strict_weak_on A lessf" and "x \<in> A" and "set ys \<subseteq> A" and "descending lessf ys"
  shows "descending lessf (insertLeft lessf x ys)"
  using assms(3,4)
proof (induction ys)
  case Nil
  then show ?case by (simp add: descending_def)
next
  case (Cons y ys)
  from Cons.prems have yA: "y \<in> A" and ysA: "set ys \<subseteq> A" by simp_all
  from Cons.prems(2) have d: "descending lessf ys" and yy: "\<forall>z\<in>set ys. \<not> lessf y z"
    by (simp_all add: descending_Cons)
  show ?case
  proof (cases "lessf x y")
    case True
    have 1: "\<not> lessf y x" using strict_weak_onD1 [OF assms(1,2) yA True] .
    have 2: "descending lessf (insertLeft lessf x ys)" using Cons.IH ysA d by simp
    have "\<forall>z\<in>set (insertLeft lessf x ys). \<not> lessf y z"
      using 1 yy by (simp add: set_insertLeft)
    with 2 have "descending lessf (y # insertLeft lessf x ys)"
      by (simp add: descending_Cons)
    with True show ?thesis by simp
  next
    case False
    have "\<forall>z\<in>set ys. \<not> lessf x z"
    proof
      fix z assume z: "z \<in> set ys"
      with yy have "\<not> lessf y z" by simp
      moreover have "z \<in> A" using z ysA by auto
      ultimately show "\<not> lessf x z"
        using strict_weak_onD2 [OF assms(1,2) yA _ False] by blast
    qed
    with False have "\<forall>z\<in>set (y # ys). \<not> lessf x z" by simp
    then have "descending lessf (x # y # ys)"
      using Cons.prems(2) by (subst descending_Cons) simp
    with False show ?thesis by simp
  qed
qed

lemma descending_foldl:
  assumes "strict_weak_on A lessf"
  shows "set xs \<subseteq> A \<Longrightarrow> set acc \<subseteq> A \<Longrightarrow> descending lessf acc \<Longrightarrow>
    descending lessf (foldl (\<lambda>acc x. insertLeft lessf x acc) acc xs)"
proof (induction xs arbitrary: acc)
  case Nil
  then show ?case by simp
next
  case (Cons x xs)
  have "descending lessf (insertLeft lessf x acc)"
    using descending_insertLeft [OF assms, of x acc] Cons.prems by simp
  moreover have "set (insertLeft lessf x acc) \<subseteq> A"
    using Cons.prems by (simp add: set_insertLeft)
  ultimately show ?case using Cons.IH [of "insertLeft lessf x acc"] Cons.prems by simp
qed

lemma ascending_rev: "ascending lessf (rev xs) = descending lessf xs"
  by (simp add: ascending_def descending_def sorted_wrt_rev)

lemma ascending_insertionSort:
  "strict_weak_on (set xs) lessf \<Longrightarrow> ascending lessf (insertionSort lessf xs)"
  unfolding insertionSort_def ascending_rev
  by (rule descending_foldl [where A = "set xs"]) (simp_all add: descending_def)

lemma insertionSort_contract: "sort_contract insertionSort"
  by (simp add: sort_contract_def mset_insertionSort ascending_insertionSort)

lemma insertionSortRev_contract: "sort_contract insertionSortRev"
proof -
  have "ascending lessf (insertionSort lessf (rev xs))" if "strict_weak_on (set xs) lessf"
    for lessf :: "'a \<Rightarrow> 'a \<Rightarrow> bool" and xs
    using ascending_insertionSort [of "rev xs" lessf] that by simp
  then show ?thesis
    by (simp add: sort_contract_def insertionSortRev_def mset_insertionSort)
qed

lemma sorted_wrt_unique:
  "sorted_wrt R xs \<Longrightarrow> sorted_wrt R ys \<Longrightarrow> mset xs = mset ys \<Longrightarrow>
   (\<forall>a\<in>set xs. \<forall>b\<in>set xs. R a b \<and> R b a \<longrightarrow> a = b) \<Longrightarrow> xs = ys"
proof (induction xs arbitrary: ys)
  case Nil
  then show ?case by simp
next
  case (Cons x xs)
  from Cons.prems(3) obtain y ys' where ys: "ys = y # ys'" by (cases ys) auto
  have sets: "set (x # xs) = set (y # ys')"
    using Cons.prems(3) ys mset_eq_setD by blast
  have xy: "x = y"
  proof (rule ccontr)
    assume ne: "x \<noteq> y"
    from sets ne have "x \<in> set ys'" "y \<in> set xs" by auto
    moreover from this Cons.prems(1,2) ys have "R y x" "R x y" by auto
    ultimately have "x = y" using Cons.prems(4) by auto
    with ne show False by simp
  qed
  have 1: "sorted_wrt R xs" using Cons.prems(1) by simp
  have 2: "sorted_wrt R ys'" using Cons.prems(2) ys by simp
  have 3: "mset xs = mset ys'" using Cons.prems(3) ys xy by simp
  have 4: "\<forall>a\<in>set xs. \<forall>b\<in>set xs. R a b \<and> R b a \<longrightarrow> a = b" using Cons.prems(4) by simp
  have "xs = ys'" using 1 2 3 4 by (rule Cons.IH)
  with xy ys show ?case by simp
qed

section \<open>What writeFileAtomic and updateListFile do to the tree\<close>

text \<open>The name of the temporary file, the path of the list, the versions read from the
  list in a state, the list with the new version, the sorted list and the state with the
  list written.\<close>

definition tmpName :: "wfa_env \<Rightarrow> string \<Rightarrow> string \<Rightarrow> string" where
  "tmpName env dir baseName = filepath_Join dir (baseName @ ''.tmp-'' @ tmp_rand env)"

lemma tmpName_neq: "tmpName env dir baseName \<noteq> filepath_Join dir baseName"
  by (simp add: tmpName_def filepath_Join_def)

lemma createTemp_name:
  "filepath_Join dir (butlast (baseName @ ''.tmp-*'') @ tmp_rand env) = tmpName env dir baseName"
  by (simp add: tmpName_def butlast_append)

lemma upd_None_idem: "f p = None \<Longrightarrow> f(p := None) = f"
  by (rule ext) simp

lemmas os_defs = os_CreateTemp_def file_Write_def appendData_def file_Chmod_def file_Close_def
  os_Rename_def os_Remove_def

lemma writeFileAtomic_Inr:
  assumes "writeFileAtomic env dir baseName b perm s = (Inr u, s')"
  shows "files s (tmpName env dir baseName) = None \<and>
         s' = s\<lparr>files := (files s)(filepath_Join dir baseName \<mapsto> \<lparr>data = b, mode = perm\<rparr>)\<rparr>"
  using assms tmpName_neq [of env dir baseName]
  unfolding writeFileAtomic_def createTemp_name Let_def os_defs
  by (auto split: option.splits if_splits prod.splits simp: upd_None_idem)

lemma writeFileAtomic_Inl:
  assumes "writeFileAtomic env dir baseName b perm s = (Inl e, s')"
  shows "dirs s' = dirs s \<and>
         (\<forall>p. p \<noteq> tmpName env dir baseName \<longrightarrow> files s' p = files s p) \<and>
         (remove_fault env = None \<longrightarrow> s' = s)"
  using assms tmpName_neq [of env dir baseName]
  unfolding writeFileAtomic_def createTemp_name Let_def os_defs
  by (auto split: option.splits if_splits prod.splits simp: upd_None_idem)

lemma compose_eq: "compose out vs = out @ concat (map (\<lambda>v. v @ [newline]) vs)"
  by (induction vs arbitrary: out) auto

lemma not_IsValid_Nil: "\<not> IsValid []"
  by (simp add: IsValid_def parse_def)

lemma scanLoop_eq: "scanLoop existing ls = existing @ filter IsValid ls"
  by (induction ls arbitrary: existing) (auto simp: not_IsValid_Nil)

lemma split_at_first:
  "x \<notin> set v \<Longrightarrow> takeWhile (\<lambda>c. c \<noteq> x) (v @ x # r) = v \<and>
     dropWhile (\<lambda>c. c \<noteq> x) (v @ x # r) = x # r"
  by (induction v) auto

lemma rawLines_compose:
  "\<forall>v\<in>set vs. newline \<notin> set v \<Longrightarrow> rawLines (concat (map (\<lambda>v. v @ [newline]) vs)) = vs"
proof (induction vs)
  case Nil
  show ?case by (subst rawLines.simps) simp
next
  case (Cons v vs)
  then have nv: "newline \<notin> set v" by simp
  show ?case using Cons split_at_first [OF nv]
    by (subst rawLines.simps) simp
qed

lemma verChar_newline: "\<not> verChar newline" "\<not> verChar (CHR 0x0D)" "\<not> verChar (CHR ''/'')"
  by (simp_all add: verChar_def isIdentChar_def newline_def)

lemma IsValid_no_newline: "IsValid v \<Longrightarrow> newline \<notin> set v"
  using IsValid_verChar verChar_newline(1) by blast

lemma IsValid_dropCR: "IsValid v \<Longrightarrow> dropCR v = v"
proof -
  assume v: "IsValid v"
  then have "v \<noteq> []" using not_IsValid_Nil by auto
  then have "last v \<in> set v" by simp
  with v have "verChar (last v)" by (rule IsValid_verChar)
  then have "last v \<noteq> CHR 0x0D" using verChar_newline(2) by auto
  then show ?thesis by (simp add: dropCR_def)
qed

definition listPath :: "string \<Rightarrow> string" where
  "listPath atVDir = filepath_Join atVDir ''list''"

definition semverLess :: "string \<Rightarrow> string \<Rightarrow> bool" where
  "semverLess a b = (Compare a b < 0)"

definition withNew :: "string \<Rightarrow> string list \<Rightarrow> string list" where
  "withNew newVer existing = (if newVer \<notin> set existing then existing @ [newVer] else existing)"

definition existingIn :: "fs \<Rightarrow> string \<Rightarrow> string list" where
  "existingIn s atVDir =
     (case files s (listPath atVDir) of
        None \<Rightarrow> []
      | Some f \<Rightarrow> scanLoop [] (map dropCR (rawLines (data f))))"

definition sortedWith :: "((string \<Rightarrow> string \<Rightarrow> bool) \<Rightarrow> string list \<Rightarrow> string list) \<Rightarrow> string \<Rightarrow> string list \<Rightarrow> string list" where
  "sortedWith srt newVer existing = srt semverLess (withNew newVer existing)"

definition putList :: "string \<Rightarrow> string list \<Rightarrow> fs \<Rightarrow> fs" where
  "putList atVDir vs s =
     s\<lparr>files := (files s)(listPath atVDir \<mapsto> \<lparr>data = compose [] vs, mode = filePerm\<rparr>)\<rparr>"

lemma semverLess_eq: "(\<lambda>a b. Compare a b < 0) = semverLess"
  by (intro ext) (simp add: semverLess_def)

lemma insertSortWrite_Inr:
  assumes "insertSortWrite srt env atVDir newVer existing s = (Inr u, s')"
  shows "s' = putList atVDir (sortedWith srt newVer existing) s"
  using writeFileAtomic_Inr [of "wfa env" atVDir "''list''" _ filePerm s u s'] assms
  by (simp add: insertSortWrite_def Let_def putList_def sortedWith_def withNew_def listPath_def
      semverLess_eq)

lemma insertSortWrite_Inl:
  assumes "insertSortWrite srt env atVDir newVer existing s = (Inl e, s')"
  shows "dirs s' = dirs s \<and>
         (\<forall>p. p \<noteq> tmpName (wfa env) atVDir ''list'' \<longrightarrow> files s' p = files s p) \<and>
         (remove_fault (wfa env) = None \<longrightarrow> s' = s)"
  using writeFileAtomic_Inl [of "wfa env" atVDir "''list''" _ filePerm s e s'] assms
  by (simp add: insertSortWrite_def Let_def)

lemma updateListFile_cases:
  "updateListFile srt env atVDir newVer s =
     (case open_fault env of
        Some e \<Rightarrow> (Inl (SysErr e), s)
      | None \<Rightarrow>
         (case files s (listPath atVDir) of
            None \<Rightarrow> insertSortWrite srt env atVDir newVer [] s
          | Some f \<Rightarrow>
             (case scanAll (read_fault env) (data f) of
                Inl err \<Rightarrow> (Inl (Wrap ''scan list'' err), s)
              | Inr lines \<Rightarrow> insertSortWrite srt env atVDir newVer (scanLoop [] lines) s)))"
  by (simp add: updateListFile_def Let_def os_Open_def IsNotExist_def listPath_def
      split: option.splits sum.splits)

lemma scanAll_Inr: "scanAll flt content = Inr lines \<Longrightarrow> lines = map dropCR (rawLines content)"
  by (auto simp: scanAll_def split: option.splits if_splits)

lemma updateListFile_Inr:
  assumes "updateListFile srt env atVDir newVer s = (Inr u, s')"
  shows "s' = putList atVDir (sortedWith srt newVer (existingIn s atVDir)) s"
proof (cases "files s (listPath atVDir)")
  case None
  with assms have "insertSortWrite srt env atVDir newVer [] s = (Inr u, s')"
    by (auto simp: updateListFile_cases split: option.splits)
  from insertSortWrite_Inr [OF this] None show ?thesis by (simp add: existingIn_def)
next
  case (Some f)
  with assms obtain lines where l: "scanAll (read_fault env) (data f) = Inr lines"
    and i: "insertSortWrite srt env atVDir newVer (scanLoop [] lines) s = (Inr u, s')"
    by (auto simp: updateListFile_cases split: option.splits sum.splits)
  from insertSortWrite_Inr [OF i] scanAll_Inr [OF l] Some show ?thesis
    by (simp add: existingIn_def)
qed

lemma updateListFile_Inl:
  assumes "updateListFile srt env atVDir newVer s = (Inl e, s')"
  shows "dirs s' = dirs s \<and>
         (\<forall>p. p \<noteq> tmpName (wfa env) atVDir ''list'' \<longrightarrow> files s' p = files s p) \<and>
         (remove_fault (wfa env) = None \<longrightarrow> s' = s)"
  using assms insertSortWrite_Inl [of srt env atVDir newVer _ s e s']
  by (auto simp: updateListFile_cases split: option.splits sum.splits)

lemma sortedWith_mset:
  "sort_contract srt \<Longrightarrow> mset (sortedWith srt newVer existing) = mset (withNew newVer existing)"
  by (simp add: sort_contract_def sortedWith_def)

lemma sortedWith_sorted:
  assumes "sort_contract srt"
  shows "sorted_wrt (\<lambda>a b. Compare a b \<le> 0) (sortedWith srt newVer existing)"
proof -
  have "strict_weak_on (set (withNew newVer existing)) semverLess"
    using Compare_less_strict_weak by (simp add: semverLess_eq [symmetric])
  with assms have "ascending semverLess (sortedWith srt newVer existing)"
    by (simp add: sort_contract_def sortedWith_def)
  then show ?thesis using ascending_Compare by (simp add: semverLess_eq [symmetric])
qed

lemma existingIn_valid: "v \<in> set (existingIn s atVDir) \<Longrightarrow> IsValid v"
  by (auto simp: existingIn_def scanLoop_eq split: option.splits)

lemma existingIn_putList:
  assumes "\<forall>v\<in>set vs. IsValid v"
  shows "existingIn (putList atVDir vs s) atVDir = vs"
proof -
  have 1: "rawLines (compose [] vs) = vs"
    using assms IsValid_no_newline by (simp add: compose_eq rawLines_compose)
  have 2: "map dropCR vs = vs" using assms IsValid_dropCR by (simp add: map_idI)
  have 3: "filter IsValid vs = vs" using assms by simp
  show ?thesis by (simp add: existingIn_def putList_def 1 2 3 scanLoop_eq)
qed

section \<open>Environments without failures, and small trees\<close>

definition wfa_ok :: "string \<Rightarrow> wfa_env" where
  "wfa_ok r = \<lparr>tmp_rand = r, createTemp_fault = None, write_fault = None, chmod_fault = None,
     close_fault = None, rename_fault = None, remove_fault = None\<rparr>"

definition list_ok :: "string \<Rightarrow> list_env" where
  "list_ok r = \<lparr>open_fault = None, read_fault = None, wfa = wfa_ok r\<rparr>"

definition emptyTree :: fs where
  "emptyTree = \<lparr>files = (\<lambda>p. None), dirs = {}\<rparr>"

definition oneFile :: "string \<Rightarrow> string \<Rightarrow> fs" where
  "oneFile name content = \<lparr>files = (\<lambda>p. None)(name \<mapsto> \<lparr>data = content, mode = filePerm\<rparr>), dirs = {}\<rparr>"

text \<open>Collaborators for the examples: a source tree whose \<^verbatim>\<open>go.mod\<close> declares the module
  \<open>example.com/Mod\<close>, checks that accept everything, and an archive and a descriptor that
  depend on their arguments only.\<close>

definition demo :: collab where
  "demo =
     \<lparr>filepath_Abs = (\<lambda>dir. Inr (''/work/'' @ dir)),
      os_ReadFile = (\<lambda>name. if name = ''/work/src/go.mod'' then Inr ''module example.com/Mod''
                            else Inl ErrNotExist),
      modfile_Parse = (\<lambda>b. if b = ''module example.com/Mod'' then Inr (Some ''example.com/Mod'')
                            else Inl (LibErr ''syntax error'')),
      module_CheckPath = (\<lambda>path. None),
      module_checkElem = (\<lambda>v. None),
      json_Marshal = (\<lambda>v t. Inr (''Version='' @ v @ '' Time='' @ replicate t (CHR ''s''))),
      zip_CreateFromDir = (\<lambda>path v dir. (''zip of '' @ path @ ''@'' @ v, None))\<rparr>"


section \<open>Calls of updateListFile one after the other\<close>

text \<open>
  \<open>scannable\<close>: no line of the list is too long for the scanner.  \<open>updateListFiles\<close> is a
  sequence of calls of \<^verbatim>\<open>updateListFile\<close> on the same directory, each with its version and
  the answers of its environment; the sequence ends at the first call that fails.
\<close>

lemma writeFileAtomic_ok:
  assumes "files s (tmpName (wfa_ok r) dir baseName) = None"
  shows "writeFileAtomic (wfa_ok r) dir baseName b perm s =
    (Inr (), s\<lparr>files := (files s)(filepath_Join dir baseName \<mapsto> \<lparr>data = b, mode = perm\<rparr>)\<rparr>)"
  using assms tmpName_neq [of "wfa_ok r" dir baseName]
  unfolding writeFileAtomic_def createTemp_name Let_def os_defs
  by (auto simp: wfa_ok_def upd_None_idem)

definition scannable :: "fs \<Rightarrow> string \<Rightarrow> bool" where
  "scannable s atVDir =
     (case files s (listPath atVDir) of
        None \<Rightarrow> True
      | Some f \<Rightarrow> \<not> list_ex (\<lambda>l. MaxScanTokenSize \<le> length l) (rawLines (data f)))"

lemma updateListFile_ok:
  assumes "files s (tmpName (wfa_ok r) atVDir ''list'') = None" and "scannable s atVDir"
  shows "updateListFile srt (list_ok r) atVDir newVer s =
    (Inr (), putList atVDir (sortedWith srt newVer (existingIn s atVDir)) s)"
proof -
  have w: "insertSortWrite srt (list_ok r) atVDir newVer ex s = (Inr (), putList atVDir (sortedWith srt newVer ex) s)" for ex
    using writeFileAtomic_ok [OF assms(1)]
    by (simp add: insertSortWrite_def Let_def putList_def sortedWith_def withNew_def listPath_def
        semverLess_eq list_ok_def)
  show ?thesis
  proof (cases "files s (listPath atVDir)")
    case None
    then show ?thesis using w [of "[]"]
      by (simp add: updateListFile_cases list_ok_def existingIn_def)
  next
    case (Some f)
    with assms(2) have "scanAll None (data f) = Inr (map dropCR (rawLines (data f)))"
      by (simp add: scannable_def scanAll_def)
    with Some show ?thesis using w [of "scanLoop [] (map dropCR (rawLines (data f)))"]
      by (simp add: updateListFile_cases list_ok_def existingIn_def)
  qed
qed

lemma files_putList_other: "p \<noteq> listPath atVDir \<Longrightarrow> files (putList atVDir vs s) p = files s p"
  by (simp add: putList_def)

lemma files_putList_list:
  "files (putList atVDir vs s) (listPath atVDir) = Some \<lparr>data = compose [] vs, mode = filePerm\<rparr>"
  by (simp add: putList_def)

lemma putList_putList: "putList atVDir vs (putList atVDir ws s) = putList atVDir vs s"
  by (simp add: putList_def)

lemma tmpName_neq_listPath: "tmpName env atVDir ''list'' \<noteq> listPath atVDir"
  using tmpName_neq [of env atVDir "''list''"] by (simp add: listPath_def)

lemma scannable_putList:
  assumes "\<forall>v\<in>set vs. newline \<notin> set v \<and> length v < MaxScanTokenSize"
  shows "scannable (putList atVDir vs s) atVDir"
proof -
  have "rawLines (compose [] vs) = vs" using assms by (simp add: compose_eq rawLines_compose)
  then show ?thesis using assms
    by (auto simp: scannable_def putList_def list_ex_iff)
qed

lemma sortedWith_unique:
  assumes "sort_contract srt" and "mset xs = mset (withNew newVer existing)"
    and "sorted_wrt (\<lambda>a b. Compare a b < 0) xs"
  shows "sortedWith srt newVer existing = xs"
proof -
  let ?R = "\<lambda>a b. Compare a b \<le> (0::int)"
  have 1: "sorted_wrt ?R xs"
    using assms(3) by (rule sorted_wrt_mono_rel [rotated]) simp
  have 2: "sorted_wrt ?R (sortedWith srt newVer existing)"
    using assms(1) by (rule sortedWith_sorted)
  have 3: "mset xs = mset (sortedWith srt newVer existing)"
    using assms(1,2) by (simp add: sortedWith_mset)
  have 4: "\<forall>a\<in>set xs. \<forall>b\<in>set xs. ?R a b \<and> ?R b a \<longrightarrow> a = b"
  proof (intro ballI impI)
    fix a b assume a: "a \<in> set xs" and b: "b \<in> set xs" and r: "?R a b \<and> ?R b a"
    then have z: "Compare a b = 0" using Compare_sym [of a b] by simp
    show "a = b"
    proof (rule ccontr)
      assume ne: "a \<noteq> b"
      from a b obtain i j where ij: "i < length xs" "j < length xs" "xs ! i = a" "xs ! j = b"
        by (auto simp: in_set_conv_nth)
      with ne have "i \<noteq> j" by auto
      then consider "i < j" | "j < i" by linarith
      then show False
      proof cases
        case 1
        with assms(3) ij have "Compare a b < 0" by (auto simp: sorted_wrt_iff_nth_less)
        with z show False by simp
      next
        case 2
        with assms(3) ij have "Compare b a < 0" by (auto simp: sorted_wrt_iff_nth_less)
        with z show False using Compare_sym [of a b] by simp
      qed
    qed
  qed
  from sorted_wrt_unique [OF 1 2 3 4] show ?thesis by simp
qed

lemma semver_valid:
  "IsValid ''v1.0.0''" "IsValid ''v1.2.0''" "IsValid ''v2.0.0-beta''" "IsValid ''v1.0.0+build''"
  "IsValid ''v2.0.0''" "IsValid ''v1.2''" "\<not> IsValid ''1.2.3''" "\<not> IsValid ''not-a-version''"
  by code_simp+

lemma semver_order:
  "Compare ''v1.0.0'' ''v1.2.0'' = - 1" "Compare ''v1.2.0'' ''v2.0.0-beta'' = - 1"
  "Compare ''v1.0.0'' ''v2.0.0-beta'' = - 1" "Compare ''v1.0.0'' ''v1.0.0+build'' = 0"
  "Compare ''v1.0.0+build'' ''v1.0.0'' = 0" "Compare ''v1.0.0'' ''v1.0.0'' = 0"
  "Compare ''v1.0.0'' ''v2.0.0'' = - 1" "Compare ''v2.0.0'' ''v1.0.0'' = 1"
  "Compare ''v2.0.0-beta'' ''v1.2.0'' = 1"
  by code_simp+

fun updateListFiles :: "((string \<Rightarrow> string \<Rightarrow> bool) \<Rightarrow> string list \<Rightarrow> string list) \<Rightarrow> string \<Rightarrow> (list_env \<times> string) list \<Rightarrow> fs \<Rightarrow> (go_error + unit) \<times> fs" where
  "updateListFiles srt atVDir [] s = (Inr (), s)"
| "updateListFiles srt atVDir ((env, newVer) # rest) s =
     orReturn (updateListFile srt env atVDir newVer s) (\<lambda>_ s. updateListFiles srt atVDir rest s)"

lemma orReturn_Inr:
  "orReturn m k = (Inr u, s') \<Longrightarrow> \<exists>a s1. m = (Inr a, s1) \<and> k a s1 = (Inr u, s')"
  by (cases m; cases "fst m") auto

lemma updateListFiles_Cons_Inr:
  assumes "updateListFiles srt atVDir ((env, newVer) # rest) s = (Inr u, s')"
  shows "updateListFiles srt atVDir rest
           (putList atVDir (sortedWith srt newVer (existingIn s atVDir)) s) = (Inr u, s')"
proof -
  from assms obtain a s1 where 1: "updateListFile srt env atVDir newVer s = (Inr a, s1)"
    and 2: "updateListFiles srt atVDir rest s1 = (Inr u, s')"
    using orReturn_Inr [of "updateListFile srt env atVDir newVer s"
        "\<lambda>_ s. updateListFiles srt atVDir rest s" u s'] by auto
  from updateListFile_Inr [OF 1] 2 show ?thesis by simp
qed

lemma compose_example:
  "compose [] [''v1.0.0'', ''v1.2.0'', ''v2.0.0-beta''] = ''v1.0.0\<newline>v1.2.0\<newline>v2.0.0-beta\<newline>''"
  by (simp add: newline_def)

lemma four_versions_lists:
  assumes c: "sort_contract srt"
  shows "sortedWith srt ''v1.2.0'' [] = [''v1.2.0'']"
    and "sortedWith srt ''v1.0.0'' [''v1.2.0''] = [''v1.0.0'', ''v1.2.0'']"
    and "sortedWith srt ''v1.2.0'' [''v1.0.0'', ''v1.2.0''] = [''v1.0.0'', ''v1.2.0'']"
    and "sortedWith srt ''v2.0.0-beta'' [''v1.0.0'', ''v1.2.0''] = [''v1.0.0'', ''v1.2.0'', ''v2.0.0-beta'']"
  by (rule sortedWith_unique [OF c]; simp add: withNew_def semver_order)+

lemma four_versions:
  assumes c: "sort_contract srt" and n: "files s (listPath atVDir) = None"
    and r: "updateListFiles srt atVDir
         [(e1, ''v1.2.0''), (e2, ''v1.0.0''), (e3, ''v1.2.0''), (e4, ''v2.0.0-beta'')] s = (Inr u, s')"
  shows "files s' (listPath atVDir) =
     Some \<lparr>data = ''v1.0.0\<newline>v1.2.0\<newline>v2.0.0-beta\<newline>'', mode = filePerm\<rparr>"
proof -
  note L = four_versions_lists [OF c]
  have e0: "existingIn s atVDir = []" using n by (simp add: existingIn_def)
  have e1: "existingIn (putList atVDir [''v1.2.0''] t) atVDir = [''v1.2.0'']" for t
    by (rule existingIn_putList) (simp add: semver_valid)
  have e2: "existingIn (putList atVDir [''v1.0.0'', ''v1.2.0''] t) atVDir = [''v1.0.0'', ''v1.2.0'']" for t
    by (rule existingIn_putList) (simp add: semver_valid)
  from updateListFiles_Cons_Inr [OF r]
  have r1: "updateListFiles srt atVDir [(e2, ''v1.0.0''), (e3, ''v1.2.0''), (e4, ''v2.0.0-beta'')]
      (putList atVDir [''v1.2.0''] s) = (Inr u, s')"
    by (simp add: e0 L)
  from updateListFiles_Cons_Inr [OF r1]
  have r2: "updateListFiles srt atVDir [(e3, ''v1.2.0''), (e4, ''v2.0.0-beta'')]
      (putList atVDir [''v1.0.0'', ''v1.2.0''] s) = (Inr u, s')"
    by (simp add: e1 L putList_putList)
  from updateListFiles_Cons_Inr [OF r2]
  have r3: "updateListFiles srt atVDir [(e4, ''v2.0.0-beta'')]
      (putList atVDir [''v1.0.0'', ''v1.2.0''] s) = (Inr u, s')"
    by (simp add: e2 L putList_putList)
  from updateListFiles_Cons_Inr [OF r3]
  have "s' = putList atVDir [''v1.0.0'', ''v1.2.0'', ''v2.0.0-beta''] s"
    by (simp add: e2 L putList_putList)
  then show ?thesis by (simp only: files_putList_list compose_example)
qed

text \<open>Without failures, a sequence of updates of a tree that holds a list of short valid
  versions (or no list) succeeds.\<close>

lemma short_versions:
  "length ''v1.0.0'' < MaxScanTokenSize" "length ''v1.2.0'' < MaxScanTokenSize"
  "length ''v2.0.0-beta'' < MaxScanTokenSize" "length ''v1.0.0+build'' < MaxScanTokenSize"
  "length ''v2.0.0'' < MaxScanTokenSize"
  by (simp_all add: MaxScanTokenSize_def)

lemma no_newline_versions:
  "newline \<notin> set ''v1.0.0''" "newline \<notin> set ''v1.2.0''"
  "newline \<notin> set ''v2.0.0-beta''" "newline \<notin> set ''v1.0.0+build''"
  "newline \<notin> set ''v2.0.0''" "newline \<notin> set ''not-a-version''"
  by (simp_all add: newline_def)

lemma updateListFile_ok_empty:
  "updateListFile srt (list_ok r) atVDir newVer emptyTree =
     (Inr (), putList atVDir (sortedWith srt newVer []) emptyTree)"
proof -
  have "updateListFile srt (list_ok r) atVDir newVer emptyTree =
     (Inr (), putList atVDir (sortedWith srt newVer (existingIn emptyTree atVDir)) emptyTree)"
    by (rule updateListFile_ok) (simp_all add: emptyTree_def scannable_def)
  then show ?thesis by (simp add: existingIn_def emptyTree_def)
qed

lemma updateListFile_ok_putList:
  assumes "\<forall>v\<in>set vs. IsValid v \<and> length v < MaxScanTokenSize"
  shows "updateListFile srt (list_ok r) atVDir newVer (putList atVDir vs emptyTree) =
     (Inr (), putList atVDir (sortedWith srt newVer vs) emptyTree)"
proof -
  let ?s = "putList atVDir vs emptyTree"
  have 1: "files ?s (tmpName (wfa_ok r) atVDir ''list'') = None"
    using tmpName_neq_listPath [of "wfa_ok r" atVDir]
    by (simp add: files_putList_other emptyTree_def)
  have 2: "scannable ?s atVDir"
    using assms IsValid_no_newline by (intro scannable_putList) auto
  have 3: "existingIn ?s atVDir = vs" using assms by (intro existingIn_putList) auto
  from updateListFile_ok [OF 1 2, of srt newVer] 3 show ?thesis
    by (simp add: putList_putList)
qed

lemma four_versions_run:
  assumes c: "sort_contract srt"
  shows "updateListFiles srt atVDir
         [(list_ok ''1'', ''v1.2.0''), (list_ok ''2'', ''v1.0.0''), (list_ok ''3'', ''v1.2.0''),
          (list_ok ''4'', ''v2.0.0-beta'')] emptyTree
     = (Inr (), putList atVDir [''v1.0.0'', ''v1.2.0'', ''v2.0.0-beta''] emptyTree)"
  using four_versions_lists [OF c]
  by (simp add: updateListFile_ok_empty updateListFile_ok_putList semver_valid
      MaxScanTokenSize_def)

lemma oneFile_putList: "oneFile (listPath atVDir) (compose [] vs) = putList atVDir vs emptyTree"
  by (simp add: oneFile_def putList_def emptyTree_def)

lemma listPath_p: "listPath ''p'' = ''p/list''"
  by (simp add: listPath_def filepath_Join_def)

lemma semver_order2:
  "Compare ''v1.2.0'' ''v1.0.0'' = 1" "Compare ''v1.2.0'' ''v1.2.0'' = 0"
  "Compare ''v2.0.0'' ''v2.0.0'' = 0" "Compare ''v1.0.0+build'' ''v1.0.0+build'' = 0"
  by code_simp+

lemma insertionSort_examples:
  "sortedWith insertionSort ''v1.2.0'' [''v1.0.0'', ''v1.0.0''] = [''v1.0.0'', ''v1.0.0'', ''v1.2.0'']"
  "sortedWith insertionSort ''v2.0.0'' [''v1.0.0'', ''v1.0.0''] = [''v1.0.0'', ''v1.0.0'', ''v2.0.0'']"
  "sortedWith insertionSort ''v1.0.0'' [] = [''v1.0.0'']"
  "sortedWith insertionSortRev ''v1.0.0'' [] = [''v1.0.0'']"
  "sortedWith insertionSort ''v1.0.0+build'' [''v1.0.0''] = [''v1.0.0'', ''v1.0.0+build'']"
  "sortedWith insertionSortRev ''v1.0.0+build'' [''v1.0.0''] = [''v1.0.0+build'', ''v1.0.0'']"
  by (simp_all add: sortedWith_def withNew_def insertionSort_def insertionSortRev_def
      semverLess_def semver_order semver_order2)

lemma scan_examples:
  "rawLines ''v1.0.0\<newline>v1.0.0\<newline>'' = [''v1.0.0'', ''v1.0.0'']"
  "rawLines ''v1.0.0\<newline>\<newline>not-a-version\<newline>v1.0.0\<newline>'' =
     [''v1.0.0'', [], ''not-a-version'', ''v1.0.0'']"
proof -
  have "rawLines (concat (map (\<lambda>v. v @ [newline]) [''v1.0.0'', ''v1.0.0''])) = [''v1.0.0'', ''v1.0.0'']"
    by (rule rawLines_compose) (simp add: newline_def)
  then show "rawLines ''v1.0.0\<newline>v1.0.0\<newline>'' = [''v1.0.0'', ''v1.0.0'']"
    by (simp add: newline_def)
  have "rawLines (concat (map (\<lambda>v. v @ [newline]) [''v1.0.0'', [], ''not-a-version'', ''v1.0.0'']))
     = [''v1.0.0'', [], ''not-a-version'', ''v1.0.0'']"
    by (rule rawLines_compose) (simp add: newline_def)
  then show "rawLines ''v1.0.0\<newline>\<newline>not-a-version\<newline>v1.0.0\<newline>'' =
     [''v1.0.0'', [], ''not-a-version'', ''v1.0.0'']"
    by (simp add: newline_def)
qed


lemma withNew_mset:
  "mset (withNew newVer existing) =
     mset existing + (if newVer \<in> set existing then {#} else {#newVer#})"
  by (simp add: withNew_def)

lemma updateListFile_written:
  assumes "sort_contract srt" and "updateListFile srt env atVDir newVer s = (Inr u, s')"
  shows "\<exists>vs. files s' (listPath atVDir) = Some \<lparr>data = compose [] vs, mode = filePerm\<rparr> \<and>
          mset vs = mset (existingIn s atVDir) +
            (if newVer \<in> set (existingIn s atVDir) then {#} else {#newVer#}) \<and>
          sorted_wrt (\<lambda>a b. Compare a b \<le> 0) vs"
proof (intro exI conjI)
  let ?vs = "sortedWith srt newVer (existingIn s atVDir)"
  from updateListFile_Inr [OF assms(2)]
  show "files s' (listPath atVDir) = Some \<lparr>data = compose [] ?vs, mode = filePerm\<rparr>"
    by (simp add: files_putList_list)
  show "mset ?vs = mset (existingIn s atVDir) +
            (if newVer \<in> set (existingIn s atVDir) then {#} else {#newVer#})"
    using sortedWith_mset [OF assms(1)] by (simp only: withNew_mset)
  show "sorted_wrt (\<lambda>a b. Compare a b \<le> 0) ?vs"
    using assms(1) by (rule sortedWith_sorted)
qed

lemma two_equal_versions:
  assumes c: "sort_contract srt" and n: "files s (listPath atVDir) = None"
    and r: "updateListFiles srt atVDir [(e1, ''v1.0.0''), (e2, ''v1.0.0+build'')] s = (Inr u, s')"
  shows "\<exists>vs. files s' (listPath atVDir) = Some \<lparr>data = compose [] vs, mode = filePerm\<rparr> \<and>
          mset vs = {#''v1.0.0'', ''v1.0.0+build''#} \<and>
          \<not> sorted_wrt (\<lambda>a b. Compare a b < 0) vs"
proof -
  have e0: "existingIn s atVDir = []" using n by (simp add: existingIn_def)
  have l1: "sortedWith srt ''v1.0.0'' [] = [''v1.0.0'']"
    by (rule sortedWith_unique [OF c]) (simp_all add: withNew_def)
  have e1: "existingIn (putList atVDir [''v1.0.0''] t) atVDir = [''v1.0.0'']" for t
    by (rule existingIn_putList) (simp add: semver_valid)
  let ?vs = "sortedWith srt ''v1.0.0+build'' [''v1.0.0'']"
  from updateListFiles_Cons_Inr [OF r]
  have r1: "updateListFiles srt atVDir [(e2, ''v1.0.0+build'')]
      (putList atVDir [''v1.0.0''] s) = (Inr u, s')"
    by (simp add: e0 l1)
  from updateListFiles_Cons_Inr [OF r1]
  have s': "s' = putList atVDir ?vs s"
    by (simp add: e1 putList_putList)
  have m: "mset ?vs = {#''v1.0.0'', ''v1.0.0+build''#}"
    using sortedWith_mset [OF c, of "''v1.0.0+build''" "[''v1.0.0'']"] by (simp add: withNew_def)
  then have "length ?vs = 2" by (metis size_mset size_add_mset size_empty numeral_2_eq_2)
  then obtain a b where ab: "?vs = [a, b]"
    by (cases ?vs; cases "tl ?vs") (auto simp: length_Suc_conv)
  with m have "(a = ''v1.0.0'' \<and> b = ''v1.0.0+build'') \<or> (a = ''v1.0.0+build'' \<and> b = ''v1.0.0'')"
    by (auto simp: add_eq_conv_ex)
  then have "Compare a b = 0" by (auto simp: semver_order)
  with ab have "\<not> sorted_wrt (\<lambda>a b. Compare a b < 0) ?vs" by simp
  with s' m show ?thesis by (intro exI [of _ ?vs]) (simp add: files_putList_list)
qed

lemma two_equal_versions_run:
  "updateListFiles insertionSort atVDir
      [(list_ok ''1'', ''v1.0.0''), (list_ok ''2'', ''v1.0.0+build'')] emptyTree
     = (Inr (), putList atVDir [''v1.0.0'', ''v1.0.0+build''] emptyTree)"
  "updateListFiles insertionSortRev atVDir
      [(list_ok ''1'', ''v1.0.0''), (list_ok ''2'', ''v1.0.0+build'')] emptyTree
     = (Inr (), putList atVDir [''v1.0.0+build'', ''v1.0.0''] emptyTree)"
  by (simp_all add: updateListFile_ok_empty updateListFile_ok_putList semver_valid
      MaxScanTokenSize_def insertionSort_examples)

lemma compose_two:
  "compose [] [''v1.0.0'', ''v1.0.0+build''] = ''v1.0.0\<newline>v1.0.0+build\<newline>''"
  "compose [] [''v1.0.0+build'', ''v1.0.0''] = ''v1.0.0+build\<newline>v1.0.0\<newline>''"
  by (simp_all add: newline_def)


section \<open>escapeString\<close>

text \<open>\<open>escChar\<close> is what the second loop of \<^verbatim>\<open>escapeString\<close> appends for one byte.\<close>

definition escChar :: "char \<Rightarrow> string" where
  "escChar r = (if isUpper r then [CHR ''!'', lowerByte r] else [r])"

lemma escChar_simps:
  "isUpper r \<Longrightarrow> escChar r = [CHR ''!'', lowerByte r]"
  "\<not> isUpper r \<Longrightarrow> escChar r = [r]"
  by (simp_all add: escChar_def)

lemma escapeLoop_eq: "escapeLoop buf s = buf @ concat (map escChar s)"
  by (induction s arbitrary: buf) (auto simp: escChar_def)

lemma concat_escChar_id: "\<not> list_ex isUpper s \<Longrightarrow> concat (map escChar s) = s"
  by (induction s) (auto simp: escChar_def)

lemma escapeString_Inr:
  "escapeString s = Inr e \<longleftrightarrow>
     (\<not> list_ex (\<lambda>r. r = CHR ''!'' \<or> (128 :: nat) \<le> of_char r) s \<and> e = concat (map escChar s))"
  by (auto simp: escapeString_def escapeLoop_eq concat_escChar_id)

lemma isUpper_nat: "isUpper r \<longleftrightarrow> (65 :: nat) \<le> of_char r \<and> of_char r \<le> (90 :: nat)"
  by (simp add: isUpper_def less_eq_char_def)

lemma of_char_lowerByte: "isUpper r \<Longrightarrow> of_char (lowerByte r) = of_char r + (32 :: nat)"
  by (simp add: lowerByte_def isUpper_nat)

lemma lowerByte_not_upper: "isUpper r \<Longrightarrow> \<not> isUpper (lowerByte r)"
  using of_char_lowerByte [of r] by (simp add: isUpper_nat)

lemma lowerByte_not_bang: "isUpper r \<Longrightarrow> lowerByte r \<noteq> CHR ''!''"
proof
  assume u: "isUpper r" and e: "lowerByte r = CHR ''!''"
  from e have "(of_char (lowerByte r) :: nat) = of_char (CHR ''!'')" by simp
  with u show False by (simp add: of_char_lowerByte isUpper_nat)
qed

lemma not_upper_bang: "\<not> isUpper (CHR ''!'')"
  by (simp add: isUpper_nat)

lemma lowerByte_inj: "isUpper r \<Longrightarrow> isUpper q \<Longrightarrow> lowerByte r = lowerByte q \<Longrightarrow> r = q"
proof -
  assume u: "isUpper r" "isUpper q" and e: "lowerByte r = lowerByte q"
  then have "(of_char (lowerByte r) :: nat) = of_char (lowerByte q)" by simp
  with u have "(of_char r :: nat) = of_char q" by (simp add: of_char_lowerByte)
  then show "r = q" by (metis char_of_char)
qed

lemma escaped_no_upper: "\<not> list_ex isUpper (concat (map escChar s))"
  by (induction s) (auto simp: escChar_def lowerByte_not_upper not_upper_bang)

lemma escaped_has_bang: "list_ex isUpper s \<Longrightarrow> CHR ''!'' \<in> set (concat (map escChar s))"
  by (induction s) (auto simp: escChar_def)

lemma ToLower_no_bang: "CHR ''!'' \<notin> set s \<Longrightarrow> CHR ''!'' \<notin> set (ToLower s)"
proof (induction s)
  case Nil
  show ?case by (simp add: ToLower_def)
next
  case (Cons r s)
  then have "CHR ''!'' \<notin> set (ToLower s)" and "r \<noteq> CHR ''!''" by auto
  moreover have "ToLower (r # s) = (if isUpper r then lowerByte r else r) # ToLower s"
    by (simp add: ToLower_def)
  ultimately show ?case using lowerByte_not_bang [of r] by auto
qed

lemma ToLower_no_upper: "\<not> list_ex isUpper (ToLower s)"
  by (induction s) (auto simp: ToLower_def lowerByte_not_upper)

lemma ToLower_ascii:
  "\<not> list_ex (\<lambda>r. r = CHR ''!'' \<or> (128 :: nat) \<le> of_char r) s \<Longrightarrow>
   \<not> list_ex (\<lambda>r. r = CHR ''!'' \<or> (128 :: nat) \<le> of_char r) (ToLower s)"
  by (induction s) (auto simp: ToLower_def lowerByte_not_bang of_char_lowerByte isUpper_nat)

lemma escChar_inj:
  assumes "concat (map escChar s) = concat (map escChar t)"
    and "CHR ''!'' \<notin> set s" and "CHR ''!'' \<notin> set t"
  shows "s = t"
  using assms
proof (induction s arbitrary: t)
  case Nil
  then show ?case by (cases t) (auto simp: escChar_def split: if_splits)
next
  case (Cons r rs)
  from Cons.prems obtain q qs where t: "t = q # qs"
    by (cases t) (auto simp: escChar_def split: if_splits)
  from Cons.prems t have rq: "r \<noteq> CHR ''!''" "q \<noteq> CHR ''!''" by auto
  from Cons.prems(1) t rq have "r = q \<and> concat (map escChar rs) = concat (map escChar qs)"
    by (cases "isUpper r"; cases "isUpper q") (auto simp: escChar_simps lowerByte_inj)
  with Cons.IH [of qs] Cons.prems t show ?case by simp
qed

lemma escapeString_inj:
  assumes "escapeString s = Inr e" and "escapeString t = Inr e"
  shows "s = t"
proof -
  from assms have "concat (map escChar s) = concat (map escChar t)"
    and "CHR ''!'' \<notin> set s" and "CHR ''!'' \<notin> set t"
    by (auto simp: escapeString_Inr list_ex_iff)
  then show ?thesis by (rule escChar_inj)
qed

lemma EscapePath_Inr: "EscapePath c path = Inr esc \<Longrightarrow> escapeString path = Inr esc"
  by (auto simp: EscapePath_def split: option.splits)

lemma isUpper_examples:
  "list_ex isUpper ''example.com/Mod''" "\<not> list_ex isUpper ''example.com/!mod''"
  by code_simp+

lemma escape_examples:
  "escapeString ''example.com/Mod'' = Inr ''example.com/!mod''"
  "ToLower ''example.com/Mod'' = ''example.com/mod''"
  "escapeString ''example.com/mod'' = Inr ''example.com/mod''"
  by code_simp+

lemma EscapePath_demo: "EscapePath demo path = escapeString path"
  by (simp add: EscapePath_def demo_def)


section \<open>The claims\<close>

subsection \<open>C3: the list is replaced atomically\<close>

text \<open>
  C3, as the specification states it, fails in one point.  The temporary file is removed
  by a deferred \<^verbatim>\<open>os.Remove\<close> whose error is discarded, so when that call fails too the
  temporary file stays: here the write stops after three bytes (errno 28) and the removal
  fails (errno 30), and \<open>p/list.tmp-1\<close> is left with the three bytes.
\<close>

theorem writeFileAtomic_tmp_left_behind:
  "writeFileAtomic ((wfa_ok ''1'')\<lparr>write_fault := Some (28, 3), remove_fault := Some 30\<rparr>)
      ''p'' ''list'' ''v1.0.0'' filePerm (oneFile ''p/list'' ''old'')
   = (Inl (SysErr 28),
      (oneFile ''p/list'' ''old'')\<lparr>files := (files (oneFile ''p/list'' ''old''))
          (''p/list.tmp-1'' \<mapsto> \<lparr>data = ''v1.'', mode = 384\<rparr>)\<rparr>)"
  by (simp add: writeFileAtomic_def wfa_ok_def oneFile_def os_defs filepath_Join_def Let_def)

text \<open>
  C3, amended: when \<^verbatim>\<open>writeFileAtomic\<close> returns an error, whichever step failed (the
  creation of the temporary file, the write, the chmod, the close or the rename), the file
  at the target path is unchanged, as are all files but the temporary one and the
  directories, and if the deferred removal does not fail the whole tree is unchanged (the
  temporary file is gone).  The target changes only when the call succeeds, that is, when
  the rename has happened, and then it holds exactly the data, with the given mode.
\<close>

theorem writeFileAtomic_atomic:
  "(writeFileAtomic env dir baseName b perm s = (Inl e, s') \<longrightarrow>
      files s' (filepath_Join dir baseName) = files s (filepath_Join dir baseName) \<and>
      dirs s' = dirs s \<and>
      (\<forall>p. p \<noteq> tmpName env dir baseName \<longrightarrow> files s' p = files s p) \<and>
      (remove_fault env = None \<longrightarrow> s' = s)) \<and>
   (writeFileAtomic env dir baseName b perm s = (Inr u, s') \<longrightarrow>
      rename_fault env = None \<and>
      s' = s\<lparr>files := (files s)(filepath_Join dir baseName \<mapsto> \<lparr>data = b, mode = perm\<rparr>)\<rparr>)"
proof (intro conjI impI)
  assume a: "writeFileAtomic env dir baseName b perm s = (Inl e, s')"
  note r = writeFileAtomic_Inl [OF a]
  from r show "dirs s' = dirs s" by simp
  from r show "\<forall>p. p \<noteq> tmpName env dir baseName \<longrightarrow> files s' p = files s p" by simp
  then show "files s' (filepath_Join dir baseName) = files s (filepath_Join dir baseName)"
    using tmpName_neq [of env dir baseName] by (metis)
  assume "remove_fault env = None"
  with r show "s' = s" by simp
next
  assume a: "writeFileAtomic env dir baseName b perm s = (Inr u, s')"
  from writeFileAtomic_Inr [OF a]
  show "s' = s\<lparr>files := (files s)(filepath_Join dir baseName \<mapsto> \<lparr>data = b, mode = perm\<rparr>)\<rparr>"
    by simp
  from a show "rename_fault env = None"
    unfolding writeFileAtomic_def createTemp_name Let_def os_defs
    by (auto split: option.splits if_splits prod.splits)
qed

text \<open>
  C3, witness: with the old list \<open>old\<close> in place, a write that fails after three bytes
  leaves the tree as it was, and a call without failures replaces the list.
\<close>

theorem writeFileAtomic_atomic_witness:
  "writeFileAtomic ((wfa_ok ''1'')\<lparr>write_fault := Some (28, 3)\<rparr>)
      ''p'' ''list'' ''v1.0.0'' filePerm (oneFile ''p/list'' ''old'')
     = (Inl (SysErr 28), oneFile ''p/list'' ''old'') \<and>
   files (oneFile ''p/list'' ''old'') (filepath_Join ''p'' ''list'')
     = Some \<lparr>data = ''old'', mode = filePerm\<rparr> \<and>
   remove_fault ((wfa_ok ''1'')\<lparr>write_fault := Some (28, 3)\<rparr>) = None \<and>
   writeFileAtomic (wfa_ok ''1'') ''p'' ''list'' ''v1.0.0'' filePerm (oneFile ''p/list'' ''old'')
     = (Inr (), oneFile ''p/list'' ''v1.0.0'')"
proof -
  let ?env = "(wfa_ok ''1'')\<lparr>write_fault := Some (28, 3)\<rparr>"
  let ?s = "oneFile ''p/list'' ''old''"
  obtain e s' where f: "writeFileAtomic ?env ''p'' ''list'' ''v1.0.0'' filePerm ?s = (Inl e, s')"
    and e: "e = SysErr 28"
    by (simp add: writeFileAtomic_def wfa_ok_def oneFile_def os_defs filepath_Join_def Let_def)
  have rf: "remove_fault ?env = None" by (simp add: wfa_ok_def)
  from writeFileAtomic_atomic [of ?env "''p''" "''list''" "''v1.0.0''" filePerm ?s e s' "()"] f rf
  have same: "s' = ?s" by simp
  obtain u s'' where g: "writeFileAtomic (wfa_ok ''1'') ''p'' ''list'' ''v1.0.0'' filePerm ?s = (Inr u, s'')"
    by (simp add: writeFileAtomic_def wfa_ok_def oneFile_def os_defs filepath_Join_def Let_def)
  from writeFileAtomic_atomic [of "wfa_ok ''1''" "''p''" "''list''" "''v1.0.0''" filePerm ?s e s'' u] g
  have "s'' = ?s\<lparr>files := (files ?s)(filepath_Join ''p'' ''list'' \<mapsto> \<lparr>data = ''v1.0.0'', mode = filePerm\<rparr>)\<rparr>"
    by simp
  then have s'': "s'' = oneFile ''p/list'' ''v1.0.0''"
    by (simp add: oneFile_def filepath_Join_def)
  show ?thesis using f e same g s'' rf by (simp add: oneFile_def filepath_Join_def)
qed

subsection \<open>C1: the invariant of the list\<close>

text \<open>
  C1 (the code does not do what the claim and the comment of \<^verbatim>\<open>updateListFile\<close> say: "it
  ensures unique entries").  The function adds the new version only if it is missing, but
  it never removes an entry that the list holds twice already: started on the list
  \<open>v1.0.0, v1.0.0\<close> with the new version \<open>v1.2.0\<close> it succeeds and writes
  \<open>v1.0.0, v1.0.0, v1.2.0\<close>.
\<close>

theorem updateListFile_keeps_duplicates:
  "updateListFile insertionSort (list_ok ''1'') ''p'' ''v1.2.0''
     (oneFile ''p/list'' ''v1.0.0\<newline>v1.0.0\<newline>'')
   = (Inr (), oneFile ''p/list'' ''v1.0.0\<newline>v1.0.0\<newline>v1.2.0\<newline>'')"
proof -
  let ?s = "oneFile ''p/list'' ''v1.0.0\<newline>v1.0.0\<newline>''"
  have 1: "files ?s (tmpName (wfa_ok ''1'') ''p'' ''list'') = None"
    by (simp add: oneFile_def tmpName_def filepath_Join_def wfa_ok_def)
  have 2: "scannable ?s ''p''"
    by (simp add: scannable_def listPath_p oneFile_def scan_examples MaxScanTokenSize_def)
  have 3: "existingIn ?s ''p'' = [''v1.0.0'', ''v1.0.0'']"
    by (simp add: existingIn_def listPath_p oneFile_def scan_examples dropCR_def semver_valid)
  have 4: "putList ''p'' [''v1.0.0'', ''v1.0.0'', ''v1.2.0''] ?s
      = oneFile ''p/list'' ''v1.0.0\<newline>v1.0.0\<newline>v1.2.0\<newline>''"
    by (simp add: putList_def oneFile_def listPath_p newline_def)
  from updateListFile_ok [OF 1 2, of insertionSort "''v1.2.0''"] show ?thesis
    by (simp only: 3 insertionSort_examples 4)
qed

subsection \<open>C2: the example of four versions\<close>

text \<open>
  C2, as the specification states it, fails: the four calls succeed (here with the
  insertion sort and no failure of the environment) and the list they leave is not
  \<open>v1.0.0, v2.0.0-beta, v1.2.0\<close>.
\<close>

theorem four_versions_not_as_stated:
  "fst (updateListFiles insertionSort ''p''
         [(list_ok ''1'', ''v1.2.0''), (list_ok ''2'', ''v1.0.0''), (list_ok ''3'', ''v1.2.0''),
          (list_ok ''4'', ''v2.0.0-beta'')] emptyTree) = Inr () \<and>
   map_option data (files (snd (updateListFiles insertionSort ''p''
         [(list_ok ''1'', ''v1.2.0''), (list_ok ''2'', ''v1.0.0''), (list_ok ''3'', ''v1.2.0''),
          (list_ok ''4'', ''v2.0.0-beta'')] emptyTree)) ''p/list'')
     \<noteq> Some ''v1.0.0\<newline>v2.0.0-beta\<newline>v1.2.0\<newline>''"
  unfolding four_versions_run [OF insertionSort_contract]
  by (simp add: putList_def listPath_p newline_def)

text \<open>
  C2, amended: starting without a list file, the calls with \<open>v1.2.0\<close>, \<open>v1.0.0\<close>,
  \<open>v1.2.0\<close>, \<open>v2.0.0-beta\<close>, if they all succeed, leave the list with exactly the content
  \<open>v1.0.0\<close>, \<open>v1.2.0\<close>, \<open>v2.0.0-beta\<close>, one per line: semver order, in which the
  pre-release \<open>v2.0.0-beta\<close> comes after \<open>v1.2.0\<close>.  This holds for every sort that meets
  the contract of \<^verbatim>\<open>sort.Slice\<close> and for all answers of the environment.
\<close>

theorem four_versions_list:
  assumes "sort_contract srt" and "files s (listPath atVDir) = None"
    and "updateListFiles srt atVDir
         [(e1, ''v1.2.0''), (e2, ''v1.0.0''), (e3, ''v1.2.0''), (e4, ''v2.0.0-beta'')] s = (Inr u, s')"
  shows "files s' (listPath atVDir) =
     Some \<lparr>data = ''v1.0.0\<newline>v1.2.0\<newline>v2.0.0-beta\<newline>'', mode = filePerm\<rparr>"
  using assms by (rule four_versions)

text \<open>C2, witness: the insertion sort, no failures, the empty tree.\<close>

theorem four_versions_list_witness:
  "sort_contract (insertionSort :: (string \<Rightarrow> string \<Rightarrow> bool) \<Rightarrow> string list \<Rightarrow> string list) \<and>
   files emptyTree (listPath ''p'') = None \<and>
   updateListFiles insertionSort ''p''
         [(list_ok ''1'', ''v1.2.0''), (list_ok ''2'', ''v1.0.0''), (list_ok ''3'', ''v1.2.0''),
          (list_ok ''4'', ''v2.0.0-beta'')] emptyTree
     = (Inr (), putList ''p'' [''v1.0.0'', ''v1.2.0'', ''v2.0.0-beta''] emptyTree) \<and>
   files (putList ''p'' [''v1.0.0'', ''v1.2.0'', ''v2.0.0-beta''] emptyTree) (listPath ''p'') =
     Some \<lparr>data = ''v1.0.0\<newline>v1.2.0\<newline>v2.0.0-beta\<newline>'', mode = filePerm\<rparr>"
proof -
  have c: "sort_contract (insertionSort :: (string \<Rightarrow> string \<Rightarrow> bool) \<Rightarrow> string list \<Rightarrow> string list)"
    by (rule insertionSort_contract)
  have n: "files emptyTree (listPath ''p'') = None" by (simp add: emptyTree_def)
  note r = four_versions_run [OF c, of "''p''"]
  from four_versions_list [OF c n r] c n r show ?thesis by simp
qed

subsection \<open>C6: a list with blank and corrupt lines\<close>

text \<open>
  C6 (the code does not do what the claim says and the comment of \<^verbatim>\<open>updateListFile\<close>
  promises).  The blank line and the line that is no version are dropped without an error
  and the new version is added, but the rewritten list is not deduplicated: a version that
  the old list held twice is written twice.
\<close>

theorem updateListFile_drops_corrupt_keeps_duplicates:
  "updateListFile insertionSort (list_ok ''1'') ''p'' ''v2.0.0''
     (oneFile ''p/list'' ''v1.0.0\<newline>\<newline>not-a-version\<newline>v1.0.0\<newline>'')
   = (Inr (), oneFile ''p/list'' ''v1.0.0\<newline>v1.0.0\<newline>v2.0.0\<newline>'')"
proof -
  let ?s = "oneFile ''p/list'' ''v1.0.0\<newline>\<newline>not-a-version\<newline>v1.0.0\<newline>''"
  have 1: "files ?s (tmpName (wfa_ok ''1'') ''p'' ''list'') = None"
    by (simp add: oneFile_def tmpName_def filepath_Join_def wfa_ok_def)
  have 2: "scannable ?s ''p''"
    by (simp add: scannable_def listPath_p oneFile_def scan_examples MaxScanTokenSize_def)
  have 3: "existingIn ?s ''p'' = [''v1.0.0'', ''v1.0.0'']"
    by (simp add: existingIn_def listPath_p oneFile_def scan_examples dropCR_def semver_valid)
  have 4: "putList ''p'' [''v1.0.0'', ''v1.0.0'', ''v2.0.0''] ?s
      = oneFile ''p/list'' ''v1.0.0\<newline>v1.0.0\<newline>v2.0.0\<newline>''"
    by (simp add: putList_def oneFile_def listPath_p newline_def)
  from updateListFile_ok [OF 1 2, of insertionSort "''v2.0.0''"] show ?thesis
    by (simp only: 3 insertionSort_examples 4)
qed

subsection \<open>C9: entries are compared as strings when the new version is inserted\<close>

text \<open>
  C9: for every sort that meets the contract of \<^verbatim>\<open>sort.Slice\<close>, a successful call writes
  the valid versions of the old list, each as often as it stood there, and the new version
  if no entry is the same string; the written list is non-decreasing under
  \<^verbatim>\<open>semver.Compare\<close>.  \<open>v1.0.0\<close> and \<open>v1.0.0+build\<close> compare equal, both stay after
  the two calls, and the list is then not strictly ascending.  Their order is not
  determined: the insertion sort and the insertion sort of the reversed slice both meet
  the contract, and they leave the two entries in opposite orders.
\<close>

theorem list_dedup_by_string_equality_only:
  assumes "sort_contract srt"
  shows
   "(updateListFile srt env atVDir newVer s = (Inr u, s') \<longrightarrow>
      (\<exists>vs. files s' (listPath atVDir) = Some \<lparr>data = compose [] vs, mode = filePerm\<rparr> \<and>
          mset vs = mset (existingIn s atVDir) +
            (if newVer \<in> set (existingIn s atVDir) then {#} else {#newVer#}) \<and>
          sorted_wrt (\<lambda>a b. Compare a b \<le> 0) vs)) \<and>
    (files s (listPath atVDir) = None \<longrightarrow>
     updateListFiles srt atVDir [(ea, ''v1.0.0''), (eb, ''v1.0.0+build'')] s = (Inr u, sb) \<longrightarrow>
      (\<exists>vs. files sb (listPath atVDir) = Some \<lparr>data = compose [] vs, mode = filePerm\<rparr> \<and>
          mset vs = {#''v1.0.0'', ''v1.0.0+build''#} \<and>
          \<not> sorted_wrt (\<lambda>a b. Compare a b < 0) vs)) \<and>
    Compare ''v1.0.0'' ''v1.0.0+build'' = 0 \<and>
    sort_contract (insertionSort :: (string \<Rightarrow> string \<Rightarrow> bool) \<Rightarrow> string list \<Rightarrow> string list) \<and>
    sort_contract (insertionSortRev :: (string \<Rightarrow> string \<Rightarrow> bool) \<Rightarrow> string list \<Rightarrow> string list) \<and>
    map_option data (files (snd (updateListFiles insertionSort ''p''
        [(list_ok ''1'', ''v1.0.0''), (list_ok ''2'', ''v1.0.0+build'')] emptyTree)) ''p/list'')
      = Some ''v1.0.0\<newline>v1.0.0+build\<newline>'' \<and>
    map_option data (files (snd (updateListFiles insertionSortRev ''p''
        [(list_ok ''1'', ''v1.0.0''), (list_ok ''2'', ''v1.0.0+build'')] emptyTree)) ''p/list'')
      = Some ''v1.0.0+build\<newline>v1.0.0\<newline>''"
proof (intro conjI impI)
  assume "updateListFile srt env atVDir newVer s = (Inr u, s')"
  with assms show "\<exists>vs. files s' (listPath atVDir) = Some \<lparr>data = compose [] vs, mode = filePerm\<rparr> \<and>
          mset vs = mset (existingIn s atVDir) +
            (if newVer \<in> set (existingIn s atVDir) then {#} else {#newVer#}) \<and>
          sorted_wrt (\<lambda>a b. Compare a b \<le> 0) vs"
    by (rule updateListFile_written)
next
  assume "files s (listPath atVDir) = None"
    and "updateListFiles srt atVDir [(ea, ''v1.0.0''), (eb, ''v1.0.0+build'')] s = (Inr u, sb)"
  with assms show "\<exists>vs. files sb (listPath atVDir) = Some \<lparr>data = compose [] vs, mode = filePerm\<rparr> \<and>
          mset vs = {#''v1.0.0'', ''v1.0.0+build''#} \<and>
          \<not> sorted_wrt (\<lambda>a b. Compare a b < 0) vs"
    by (rule two_equal_versions)
next
  show "Compare ''v1.0.0'' ''v1.0.0+build'' = 0" by (simp add: semver_order)
  show "sort_contract (insertionSort :: (string \<Rightarrow> string \<Rightarrow> bool) \<Rightarrow> string list \<Rightarrow> string list)"
    by (rule insertionSort_contract)
  show "sort_contract (insertionSortRev :: (string \<Rightarrow> string \<Rightarrow> bool) \<Rightarrow> string list \<Rightarrow> string list)"
    by (rule insertionSortRev_contract)
  show "map_option data (files (snd (updateListFiles insertionSort ''p''
        [(list_ok ''1'', ''v1.0.0''), (list_ok ''2'', ''v1.0.0+build'')] emptyTree)) ''p/list'')
      = Some ''v1.0.0\<newline>v1.0.0+build\<newline>''"
    unfolding two_equal_versions_run
    by (simp only: snd_conv listPath_p [symmetric] files_putList_list compose_two option.map regular_file.simps)
  show "map_option data (files (snd (updateListFiles insertionSortRev ''p''
        [(list_ok ''1'', ''v1.0.0''), (list_ok ''2'', ''v1.0.0+build'')] emptyTree)) ''p/list'')
      = Some ''v1.0.0+build\<newline>v1.0.0\<newline>''"
    unfolding two_equal_versions_run
    by (simp only: snd_conv listPath_p [symmetric] files_putList_list compose_two option.map regular_file.simps)
qed

text \<open>C9, witness: the insertion sort on the empty tree for the two versions that compare
  equal, and on the list \<open>v1.0.0, v1.0.0\<close> for a call with \<open>v1.2.0\<close>.\<close>

theorem list_dedup_by_string_equality_only_witness:
  "sort_contract (insertionSort :: (string \<Rightarrow> string \<Rightarrow> bool) \<Rightarrow> string list \<Rightarrow> string list) \<and>
   files emptyTree (listPath ''p'') = None \<and>
   updateListFiles insertionSort ''p''
      [(list_ok ''1'', ''v1.0.0''), (list_ok ''2'', ''v1.0.0+build'')] emptyTree
     = (Inr (), putList ''p'' [''v1.0.0'', ''v1.0.0+build''] emptyTree) \<and>
   (\<exists>vs. files (putList ''p'' [''v1.0.0'', ''v1.0.0+build''] emptyTree) (listPath ''p'')
          = Some \<lparr>data = compose [] vs, mode = filePerm\<rparr> \<and>
        mset vs = {#''v1.0.0'', ''v1.0.0+build''#} \<and>
        \<not> sorted_wrt (\<lambda>a b. Compare a b < 0) vs) \<and>
   updateListFile insertionSort (list_ok ''1'') ''p'' ''v1.2.0''
     (oneFile ''p/list'' ''v1.0.0\<newline>v1.0.0\<newline>'')
     = (Inr (), oneFile ''p/list'' ''v1.0.0\<newline>v1.0.0\<newline>v1.2.0\<newline>'') \<and>
   (\<exists>vs. files (oneFile ''p/list'' ''v1.0.0\<newline>v1.0.0\<newline>v1.2.0\<newline>'') (listPath ''p'')
          = Some \<lparr>data = compose [] vs, mode = filePerm\<rparr> \<and>
        mset vs = mset (existingIn (oneFile ''p/list'' ''v1.0.0\<newline>v1.0.0\<newline>'') ''p'') + {#''v1.2.0''#} \<and>
        sorted_wrt (\<lambda>a b. Compare a b \<le> 0) vs)"
proof -
  have c: "sort_contract (insertionSort :: (string \<Rightarrow> string \<Rightarrow> bool) \<Rightarrow> string list \<Rightarrow> string list)"
    by (rule insertionSort_contract)
  have n: "files emptyTree (listPath ''p'') = None" by (simp add: emptyTree_def)
  note r = two_equal_versions_run(1) [of "''p''"]
  let ?s = "oneFile ''p/list'' ''v1.0.0\<newline>v1.0.0\<newline>''"
  have 1: "files ?s (tmpName (wfa_ok ''1'') ''p'' ''list'') = None"
    by (simp add: oneFile_def tmpName_def filepath_Join_def wfa_ok_def)
  have 2: "scannable ?s ''p''"
    by (simp add: scannable_def listPath_p oneFile_def scan_examples MaxScanTokenSize_def)
  have 3: "existingIn ?s ''p'' = [''v1.0.0'', ''v1.0.0'']"
    by (simp add: existingIn_def listPath_p oneFile_def scan_examples dropCR_def semver_valid)
  have 4: "putList ''p'' [''v1.0.0'', ''v1.0.0'', ''v1.2.0''] ?s
      = oneFile ''p/list'' ''v1.0.0\<newline>v1.0.0\<newline>v1.2.0\<newline>''"
    by (simp add: putList_def oneFile_def listPath_p newline_def)
  have u: "updateListFile insertionSort (list_ok ''1'') ''p'' ''v1.2.0'' ?s
     = (Inr (), oneFile ''p/list'' ''v1.0.0\<newline>v1.0.0\<newline>v1.2.0\<newline>'')"
    using updateListFile_ok [OF 1 2, of insertionSort "''v1.2.0''"]
    by (simp only: 3 insertionSort_examples 4)
  note t = list_dedup_by_string_equality_only [OF c]
  from t [where env = "list_ok ''1''" and atVDir = "''p''" and newVer = "''v1.2.0''" and s = ?s
      and u = "()" and s' = "oneFile ''p/list'' ''v1.0.0\<newline>v1.0.0\<newline>v1.2.0\<newline>''"] u
  have a: "\<exists>vs. files (oneFile ''p/list'' ''v1.0.0\<newline>v1.0.0\<newline>v1.2.0\<newline>'') (listPath ''p'')
          = Some \<lparr>data = compose [] vs, mode = filePerm\<rparr> \<and>
        mset vs = mset (existingIn ?s ''p'') + {#''v1.2.0''#} \<and>
        sorted_wrt (\<lambda>a b. Compare a b \<le> 0) vs"
    by (simp add: 3)
  from t [where atVDir = "''p''" and s = emptyTree and u = "()" and ea = "list_ok ''1''"
      and eb = "list_ok ''2''" and sb = "putList ''p'' [''v1.0.0'', ''v1.0.0+build''] emptyTree"] n r
  have b: "\<exists>vs. files (putList ''p'' [''v1.0.0'', ''v1.0.0+build''] emptyTree) (listPath ''p'')
          = Some \<lparr>data = compose [] vs, mode = filePerm\<rparr> \<and>
        mset vs = {#''v1.0.0'', ''v1.0.0+build''#} \<and>
        \<not> sorted_wrt (\<lambda>a b. Compare a b < 0) vs"
    by blast
  from c n r a b u show ?thesis by blast
qed

subsection \<open>C8: escaping hides upper-case letters and keeps identifiers apart\<close>

text \<open>
  C8: when \<^verbatim>\<open>module.EscapePath\<close> accepts a module path that has an upper-case letter, the
  escaped path has none, and it differs from the lower-cased path, which \<^verbatim>\<open>escapeString\<close>
  leaves as it is, so from the escaped form of the lower-cased path whenever that one is
  accepted too.  More generally no other path has the same escaped form.
\<close>

theorem EscapePath_hides_upper_case:
  assumes "EscapePath c path = Inr esc" and "list_ex isUpper path"
  shows "\<not> list_ex isUpper esc \<and>
         escapeString (ToLower path) = Inr (ToLower path) \<and>
         esc \<noteq> ToLower path \<and>
         (\<forall>esc'. EscapePath c (ToLower path) = Inr esc' \<longrightarrow> esc' \<noteq> esc) \<and>
         (\<forall>path'. EscapePath c path' = Inr esc \<longrightarrow> path' = path)"
proof -
  from EscapePath_Inr [OF assms(1)] have e: "escapeString path = Inr esc" .
  then have ok: "\<not> list_ex (\<lambda>r. r = CHR ''!'' \<or> (128 :: nat) \<le> of_char r) path"
    and esc: "esc = concat (map escChar path)"
    by (simp_all add: escapeString_Inr)
  have 1: "\<not> list_ex isUpper esc" unfolding esc by (rule escaped_no_upper)
  have low: "escapeString (ToLower path) = Inr (ToLower path)"
    using ToLower_ascii [OF ok] ToLower_no_upper [of path]
    by (simp add: escapeString_Inr concat_escChar_id)
  have "CHR ''!'' \<in> set esc" unfolding esc using assms(2) by (rule escaped_has_bang)
  moreover have "CHR ''!'' \<notin> set (ToLower path)"
    using ok by (intro ToLower_no_bang) (auto simp: list_ex_iff)
  ultimately have 3: "esc \<noteq> ToLower path" by auto
  have 4: "\<forall>esc'. EscapePath c (ToLower path) = Inr esc' \<longrightarrow> esc' \<noteq> esc"
  proof (intro allI impI)
    fix esc' assume "EscapePath c (ToLower path) = Inr esc'"
    from EscapePath_Inr [OF this] low have "esc' = ToLower path" by simp
    with 3 show "esc' \<noteq> esc" by simp
  qed
  have 5: "\<forall>path'. EscapePath c path' = Inr esc \<longrightarrow> path' = path"
  proof (intro allI impI)
    fix path' assume "EscapePath c path' = Inr esc"
    from EscapePath_Inr [OF this] e show "path' = path" by (rule escapeString_inj)
  qed
  from 1 low 3 4 5 show ?thesis by simp
qed

text \<open>C8, witness: \<open>example.com/Mod\<close> becomes \<open>example.com/!mod\<close>.\<close>

theorem EscapePath_hides_upper_case_witness:
  "EscapePath demo ''example.com/Mod'' = Inr ''example.com/!mod'' \<and>
   list_ex isUpper ''example.com/Mod'' \<and>
   \<not> list_ex isUpper ''example.com/!mod'' \<and>
   EscapePath demo (ToLower ''example.com/Mod'') = Inr ''example.com/mod'' \<and>
   ''example.com/!mod'' \<noteq> ToLower ''example.com/Mod''"
proof -
  have a: "EscapePath demo ''example.com/Mod'' = Inr ''example.com/!mod''"
    by (simp only: EscapePath_demo escape_examples)
  have b: "list_ex isUpper ''example.com/Mod''" by (rule isUpper_examples)
  have c: "EscapePath demo (ToLower ''example.com/Mod'') = Inr ''example.com/mod''"
    by (simp only: EscapePath_demo escape_examples)
  note t = EscapePath_hides_upper_case [OF a b]
  from t have d: "\<not> list_ex isUpper ''example.com/!mod''" by (rule conjunct1)
  from t have e: "''example.com/!mod'' \<noteq> ToLower ''example.com/Mod''"
    by (elim conjE)
  from a b c d e show ?thesis by (intro conjI)
qed

end
